theory Spec2Isabelle
  imports Main "HOL-Library.Word"
begin

section \<open>Lexicographic enumeration of the k-faces of a tensor product grid\<close>

text \<open>
  The development embeds \<^verbatim>\<open>include/tensor_enumeration/lexicographic.h\<close>.
  The class template \<^verbatim>\<open>Lexicographic<n,k,Bint,Sint,Tint>\<close> is modelled at its
  default integer types: \<^verbatim>\<open>Bint = unsigned int\<close> (32 bits),
  \<^verbatim>\<open>Sint = unsigned short\<close> (16 bits) and \<^verbatim>\<open>Tint = unsigned char\<close> (8 bits),
  with \<^verbatim>\<open>int\<close> of 32 bits. The template parameters \<open>n\<close> and \<open>k\<close> are natural
  numbers passed to every operation.
\<close>

type_synonym Bint = "32 word"
type_synonym Sint = "16 word"
type_synonym Tint = "8 word"

subsection \<open>Failures\<close>

text \<open>
  \<open>Thrown b\<close> is the \<^verbatim>\<open>throw (b)\<close> of \<^verbatim>\<open>operator[]\<close>. The other two are the
  undefined behaviours the code can run into: an integer division or remainder by zero,
  and a read or write outside a \<^verbatim>\<open>std::array\<close>.
\<close>

datatype error = Thrown nat | DivisionByZero | ArrayBounds

datatype 'a result = Ok 'a | Fail error

definition rbind :: "'a result \<Rightarrow> ('a \<Rightarrow> 'b result) \<Rightarrow> 'b result" where
  "rbind m f = (case m of Fail e \<Rightarrow> Fail e | Ok v \<Rightarrow> f v)"

text \<open>Reading \<^verbatim>\<open>xs[i]\<close> from a \<^verbatim>\<open>std::array\<close>.\<close>

definition rd :: "'a list \<Rightarrow> nat \<Rightarrow> 'a result" where
  "rd xs i = (if i < length xs then Ok (xs ! i) else Fail ArrayBounds)"

subsection \<open>The combinations header, as a parameter\<close>

text \<open>
  The header includes \<^verbatim>\<open>tensor_enumeration/combinations.h\<close>, which is not embedded
  here. Its class \<^verbatim>\<open>Combination<n,k>\<close> is represented by the two
  sequences its accessors read: \<open>c_in c\<close> holds \<^verbatim>\<open>in(0)\<close>, ..., \<^verbatim>\<open>in(k-1)\<close> and
  \<open>c_out c\<close> holds \<^verbatim>\<open>out(0)\<close>, ..., \<^verbatim>\<open>out(n-k-1)\<close>. The class
  \<^verbatim>\<open>Combinations<n,k>\<close> is a parameter of every operation: \<open>combs C\<close> is the table
  that \<^verbatim>\<open>combinations[i]\<close> reads and \<open>cindex C\<close> is the static function
  \<^verbatim>\<open>Combinations<n,k>::index\<close>.
\<close>

record Combination =
  c_in :: "nat list"
  c_out :: "nat list"

record Combinations =
  combs :: "Combination list"
  cindex :: "Combination \<Rightarrow> nat"

text \<open>
  Modelled from the spec: \<^verbatim>\<open>binomial(n,k)\<close>, declared in
  \<^verbatim>\<open>combinations.h\<close>, is the binomial coefficient. The name has a suffix, since
  \<open>binomial\<close> is the name of the library constant written \<open>choose\<close>.
\<close>

definition binomial_nk :: "nat \<Rightarrow> nat \<Rightarrow> nat" where
  "binomial_nk n k = n choose k"

text \<open>
  Modelled from the spec: the contract of \<^verbatim>\<open>Combinations<n,k>\<close>, defined in
  \<^verbatim>\<open>combinations.h\<close>. There are
  \<open>binomial_nk n k\<close> combinations; each one has \<open>k\<close> chosen axes and \<open>n - k\<close>
  complement axes, which together are the axes \<open>0, ..., n - 1\<close>, each once; and the
  index of the \<open>b\<close>-th combination is \<open>b\<close>.
\<close>

definition wf_Combination :: "nat \<Rightarrow> nat \<Rightarrow> Combination \<Rightarrow> bool" where
  "wf_Combination n k c \<longleftrightarrow>
     length (c_in c) = k \<and> length (c_out c) = n - k \<and> sort (c_in c @ c_out c) = [0..<n]"

definition wf_Combinations :: "nat \<Rightarrow> nat \<Rightarrow> Combinations \<Rightarrow> bool" where
  "wf_Combinations n k C \<longleftrightarrow>
     length (combs C) = binomial_nk n k \<and>
     list_all (wf_Combination n k) (combs C) \<and>
     list_all (\<lambda>b. cindex C (combs C ! b) = b) [0..<length (combs C)]"

subsection \<open>Loops\<close>

text \<open>
  \<^verbatim>\<open>for (unsigned int i = 0; i < hi; ++i) body\<close>, stopping at the first failure. Every
  bound in the header is a value of \<^verbatim>\<open>unsigned int\<close> or smaller, so the counter reaches
  it without wrapping and is a natural number here.
\<close>

primrec forM :: "(nat \<Rightarrow> 's \<Rightarrow> 's result) \<Rightarrow> nat list \<Rightarrow> 's \<Rightarrow> 's result" where
  "forM body [] s = Ok s"
| "forM body (i # is) s = (case body i s of Fail e \<Rightarrow> Fail e | Ok s' \<Rightarrow> forM body is s')"

definition for_uint :: "nat \<Rightarrow> (nat \<Rightarrow> 's \<Rightarrow> 's result) \<Rightarrow> 's \<Rightarrow> 's result" where
  "for_uint hi body s = forM body [0..<hi] s"

text \<open>
  \<^verbatim>\<open>for (Tint i = 0; i < hi; ++i) body\<close>: the counter is an \<^verbatim>\<open>unsigned char\<close>, it is
  promoted for the comparison and wraps from 255 to 0, so with \<open>hi > 255\<close> it never
  reaches the bound. A run that does not end is the value \<open>None\<close>.
\<close>

partial_function (option) for_Tint ::
  "nat \<Rightarrow> (nat \<Rightarrow> 's \<Rightarrow> 's result option) \<Rightarrow> Tint \<Rightarrow> 's \<Rightarrow> 's result option" where
  "for_Tint hi body i s =
     (if unat i < hi
      then Option.bind (body (unat i) s)
             (\<lambda>r. case r of Fail e \<Rightarrow> Some (Fail e) | Ok s' \<Rightarrow> for_Tint hi body (i + 1) s')
      else Some (Ok s))"

declare for_Tint.simps [code]

subsection \<open>The enumerator\<close>

record Lexicographic =
  dimensions :: "Sint list"
  block_sizes :: "Bint list"

record Element =
  directions :: Combination
  position_along :: "Sint list"
  position_across :: "Sint list"

text \<open>
  The two inner loops of the constructor. An \<^verbatim>\<open>unsigned short\<close> operand is promoted
  to \<^verbatim>\<open>int\<close> and converted to \<^verbatim>\<open>unsigned int\<close> for the product with \<open>p\<close>, which
  wraps modulo \<open>2 ^ 32\<close>.
\<close>

definition mul_in :: "Sint list \<Rightarrow> Combination \<Rightarrow> nat \<Rightarrow> Bint \<Rightarrow> Bint result option" where
  "mul_in d c j p =
     Some (rbind (rd (c_in c) j) (\<lambda>a. rbind (rd d a) (\<lambda>x. Ok (p * ucast x))))"

definition mul_out :: "Sint list \<Rightarrow> Combination \<Rightarrow> nat \<Rightarrow> Bint \<Rightarrow> Bint result option" where
  "mul_out d c j p =
     Some (rbind (rd (c_out c) j) (\<lambda>a. rbind (rd d a) (\<lambda>x. Ok (p * (1 + ucast x)))))"

definition block_body ::
  "nat \<Rightarrow> nat \<Rightarrow> Combinations \<Rightarrow> Sint list \<Rightarrow> nat \<Rightarrow> Bint list \<Rightarrow> Bint list result option" where
  "block_body n k C d i bs =
     (case rd (combs C) i of
        Fail e \<Rightarrow> Some (Fail e)
      | Ok combination \<Rightarrow>
          Option.bind (for_Tint k (mul_in d combination) 0 1)
            (\<lambda>r. case r of
               Fail e \<Rightarrow> Some (Fail e)
             | Ok p \<Rightarrow>
                 Option.bind (for_Tint (n - k) (mul_out d combination) 0 p)
                   (\<lambda>r. case r of
                      Fail e \<Rightarrow> Some (Fail e)
                    | Ok p \<Rightarrow>
                        Some (if i < length bs then Ok (bs[i := p]) else Fail ArrayBounds))))"

definition Lexicographic_ctor ::
  "nat \<Rightarrow> nat \<Rightarrow> Combinations \<Rightarrow> Sint list \<Rightarrow> Lexicographic result option" where
  "Lexicographic_ctor n k C d =
     Option.bind (for_Tint (binomial_nk n k) (block_body n k C d) 0 (replicate (binomial_nk n k) 0))
       (\<lambda>r. case r of
          Fail e \<Rightarrow> Some (Fail e)
        | Ok bs \<Rightarrow> Some (Ok \<lparr>dimensions = d, block_sizes = bs\<rparr>))"

text \<open>\<^verbatim>\<open>size()\<close>: the sum of the block sizes, in \<^verbatim>\<open>Bint\<close>.\<close>

definition size_body :: "Bint list \<Rightarrow> nat \<Rightarrow> Bint \<Rightarrow> Bint result" where
  "size_body bs i acc = rbind (rd bs i) (\<lambda>x. Ok (acc + x))"

definition Lexicographic_size :: "Lexicographic \<Rightarrow> Bint result" where
  "Lexicographic_size L = for_uint (length (block_sizes L)) (size_body (block_sizes L)) 0"

text \<open>\<^verbatim>\<open>block_size(Tint block)\<close>: the block number arrives as a \<^verbatim>\<open>Tint\<close>.\<close>

definition Lexicographic_block_size :: "Lexicographic \<Rightarrow> Tint \<Rightarrow> Bint result" where
  "Lexicographic_block_size L block = rd (block_sizes L) (unat block)"

subsection \<open>Decoding: \<^verbatim>\<open>operator[]\<close>\<close>

text \<open>The \<^verbatim>\<open>while\<close> loop that finds the block and makes the index local to it.\<close>

function locate :: "Bint list \<Rightarrow> nat \<Rightarrow> Bint \<Rightarrow> nat \<times> Bint" where
  "locate bs b index =
     (if b < length bs
      then (if index < bs ! b then (b, index) else locate bs (b + 1) (index - bs ! b))
      else (b, index))"
  by pat_completeness auto
termination
  by (relation "measure (\<lambda>(bs, b, index). length bs - b)") auto

text \<open>
  The digit loops. The radix is stored in \<^verbatim>\<open>Tint fdim\<close>, which keeps its low 8 bits;
  for \<^verbatim>\<open>index % fdim\<close> and \<^verbatim>\<open>index /= fdim\<close> it is converted back to
  \<^verbatim>\<open>unsigned int\<close>. The digit is converted to \<^verbatim>\<open>Sint\<close> when it is stored.
\<close>

definition along_body ::
  "Sint list \<Rightarrow> Combination \<Rightarrow> nat \<Rightarrow> Sint list \<times> Bint \<Rightarrow> (Sint list \<times> Bint) result" where
  "along_body d c i st =
     (case st of (along, index) \<Rightarrow>
        rbind (rd (c_in c) i) (\<lambda>a. rbind (rd d a) (\<lambda>x.
          let fdim = (ucast x :: Tint) in
          if fdim = 0 then Fail DivisionByZero
          else if i < length along
          then Ok (along[i := ucast (index mod ucast fdim)], index div ucast fdim)
          else Fail ArrayBounds)))"

definition across_body ::
  "Sint list \<Rightarrow> Combination \<Rightarrow> nat \<Rightarrow> Sint list \<times> Bint \<Rightarrow> (Sint list \<times> Bint) result" where
  "across_body d c i st =
     (case st of (across, index) \<Rightarrow>
        rbind (rd (c_out c) i) (\<lambda>a. rbind (rd d a) (\<lambda>x.
          let fdim = (ucast (1 + (ucast x :: Bint)) :: Tint) in
          if fdim = 0 then Fail DivisionByZero
          else if i < length across
          then Ok (across[i := ucast (index mod ucast fdim)], index div ucast fdim)
          else Fail ArrayBounds)))"

definition Lexicographic_at ::
  "nat \<Rightarrow> nat \<Rightarrow> Combinations \<Rightarrow> Lexicographic \<Rightarrow> Bint \<Rightarrow> Element result" where
  "Lexicographic_at n k C L index =
     (case locate (block_sizes L) 0 index of (b, index) \<Rightarrow>
        if b = length (block_sizes L) then Fail (Thrown b)
        else
          rbind (rd (combs C) b) (\<lambda>combination.
          rbind (for_uint k (along_body (dimensions L) combination) (replicate k 0, index))
            (\<lambda>(along, index).
          rbind (for_uint (n - k) (across_body (dimensions L) combination)
                   (replicate (n - k) 0, index))
            (\<lambda>(across, index).
          Ok \<lparr>directions = combination, position_along = along,
              position_across = across\<rparr>))))"

subsection \<open>Encoding: \<^verbatim>\<open>index\<close>\<close>

definition prefix_body :: "Bint list \<Rightarrow> nat \<Rightarrow> Bint \<Rightarrow> Bint result" where
  "prefix_body bs i result = rbind (rd bs i) (\<lambda>x. Ok (result + x))"

definition index_along_body ::
  "Sint list \<Rightarrow> Element \<Rightarrow> nat \<Rightarrow> Bint \<times> Bint \<Rightarrow> (Bint \<times> Bint) result" where
  "index_along_body d e i st =
     (case st of (result, factor) \<Rightarrow>
        rbind (rd (c_in (directions e)) i) (\<lambda>a. rbind (rd d a) (\<lambda>x.
          let fdim = (ucast x :: Tint) in
          rbind (rd (position_along e) i) (\<lambda>pos.
            Ok (result + ucast pos * factor, factor * ucast fdim)))))"

definition index_across_body ::
  "Sint list \<Rightarrow> Element \<Rightarrow> nat \<Rightarrow> Bint \<times> Bint \<Rightarrow> (Bint \<times> Bint) result" where
  "index_across_body d e i st =
     (case st of (result, factor) \<Rightarrow>
        rbind (rd (c_out (directions e)) i) (\<lambda>a. rbind (rd d a) (\<lambda>x.
          let fdim = (ucast (1 + (ucast x :: Bint)) :: Tint) in
          rbind (rd (position_across e) i) (\<lambda>pos.
            Ok (result + ucast pos * factor, factor * ucast fdim)))))"

definition Lexicographic_index ::
  "nat \<Rightarrow> nat \<Rightarrow> Combinations \<Rightarrow> Lexicographic \<Rightarrow> Element \<Rightarrow> Bint result" where
  "Lexicographic_index n k C L e =
     (let ci = (of_nat (cindex C (directions e)) :: Bint) in
      rbind (for_uint (unat ci) (prefix_body (block_sizes L)) 0) (\<lambda>result.
      rbind (for_uint k (index_along_body (dimensions L) e) (result, 1)) (\<lambda>st.
      rbind (for_uint (n - k) (index_across_body (dimensions L) e) st) (\<lambda>(result, factor).
      Ok result))))"

subsection \<open>Reference values\<close>

text \<open>
  The block size the constructor computes, in closed form and in \<^verbatim>\<open>Bint\<close>
  arithmetic.
\<close>

definition block_product :: "Sint list \<Rightarrow> Combination \<Rightarrow> Bint" where
  "block_product d c =
     prod_list (map (\<lambda>a. ucast (d ! a)) (c_in c)) *
     prod_list (map (\<lambda>a. 1 + ucast (d ! a)) (c_out c))"

text \<open>
  The cardinality of a block and the number of cells as the specification defines them,
  over the natural numbers: the product of \<open>d[in(j)]\<close> over the chosen axes times the
  product of \<open>d[out(j)] + 1\<close> over the complement axes, and the sum of that over the
  blocks.
\<close>

definition spec_block_size :: "nat list \<Rightarrow> Combination \<Rightarrow> nat" where
  "spec_block_size d c =
     prod_list (map (\<lambda>a. d ! a) (c_in c)) * prod_list (map (\<lambda>a. d ! a + 1) (c_out c))"

definition spec_size :: "nat list \<Rightarrow> Combinations \<Rightarrow> nat" where
  "spec_size d C = sum_list (map (spec_block_size d) (combs C))"

text \<open>
  The template parameters for which the class can be instantiated and constructed:
  \<open>k \<le> n\<close> (the array of \<open>n - k\<close> across positions exists), \<open>n\<close> and
  \<open>binomial_nk n k\<close> are values of \<^verbatim>\<open>Tint\<close> that the loop counters of the constructor
  can pass, and the combinations header keeps its contract.
\<close>

definition legal_parameters :: "nat \<Rightarrow> nat \<Rightarrow> Combinations \<Rightarrow> bool" where
  "legal_parameters n k C \<longleftrightarrow>
     k \<le> n \<and> n \<le> 255 \<and> binomial_nk n k \<le> 255 \<and> wf_Combinations n k C"

subsection \<open>Small instances of the combinations header\<close>

text \<open>
  Modelled from the spec: \<^verbatim>\<open>Combinations<n,k>\<close> for small \<open>n\<close> and \<open>k\<close>, where
  the order of the combinations is the lexicographic one. With \<open>k = 0\<close> or \<open>k = n\<close>
  there is one combination; with \<open>k = 1\<close> the \<open>b\<close>-th combination chooses axis
  \<open>b\<close> and its complement is increasing.
\<close>

definition Combinations_1_0 :: Combinations where
  "Combinations_1_0 = \<lparr>combs = [\<lparr>c_in = [], c_out = [0]\<rparr>], cindex = (\<lambda>c. 0)\<rparr>"

definition Combinations_1_1 :: Combinations where
  "Combinations_1_1 = \<lparr>combs = [\<lparr>c_in = [0], c_out = []\<rparr>], cindex = (\<lambda>c. 0)\<rparr>"

definition Combinations_2_0 :: Combinations where
  "Combinations_2_0 = \<lparr>combs = [\<lparr>c_in = [], c_out = [0, 1]\<rparr>], cindex = (\<lambda>c. 0)\<rparr>"

definition Combinations_2_1 :: Combinations where
  "Combinations_2_1 =
     \<lparr>combs = [\<lparr>c_in = [0], c_out = [1]\<rparr>, \<lparr>c_in = [1], c_out = [0]\<rparr>],
      cindex = (\<lambda>c. hd (c_in c))\<rparr>"

subsection \<open>Mixed-radix numbers\<close>

text \<open>
  The digits of \<open>x\<close> for the radices \<open>rs\<close>, least significant first, and the
  value of a digit sequence: the specification's decode steps 3 and 4 and encode step 3,
  over the natural numbers.
\<close>

primrec digits :: "nat list \<Rightarrow> nat \<Rightarrow> nat list" where
  "digits [] x = []"
| "digits (r # rs) x = (x mod r) # digits rs (x div r)"

fun mixed_radix :: "nat list \<Rightarrow> nat list \<Rightarrow> nat" where
  "mixed_radix (r # rs) (x # xs) = x + r * mixed_radix rs xs"
| "mixed_radix rs xs = 0"

text \<open>
  The radices that \<^verbatim>\<open>operator[]\<close> and \<^verbatim>\<open>index\<close> use for a combination: the values
  the variable \<^verbatim>\<open>Tint fdim\<close> holds, which are \<open>d[in(i)] mod 256\<close> along and
  \<open>(1 + d[out(i)]) mod 256\<close> across.
\<close>

definition along_radices :: "Sint list \<Rightarrow> Combination \<Rightarrow> nat list" where
  "along_radices d c = map (\<lambda>a. unat (d ! a) mod 256) (c_in c)"

definition across_radices :: "Sint list \<Rightarrow> Combination \<Rightarrow> nat list" where
  "across_radices d c = map (\<lambda>a. (unat (d ! a) + 1) mod 256) (c_out c)"

text \<open>Every \<open>d[i] + 1\<close> is a value of \<^verbatim>\<open>Tint\<close>.\<close>

definition fits_Tint :: "Sint list \<Rightarrow> bool" where
  "fits_Tint d \<longleftrightarrow> list_all (\<lambda>x. unat x + 1 < 256) d"

subsection \<open>Well-formed elements\<close>

text \<open>
  The specification's invariant of an \<^verbatim>\<open>Element\<close> for the shape \<open>d\<close>: its directions
  are one of the combinations, it has \<open>k\<close> positions along and \<open>n - k\<close> positions
  across, \<open>position_along[j] < d[in(j)]\<close> and \<open>position_across[j] < d[out(j)] + 1\<close>.
\<close>

definition well_formed_Element ::
  "nat \<Rightarrow> nat \<Rightarrow> Combinations \<Rightarrow> Sint list \<Rightarrow> Element \<Rightarrow> bool" where
  "well_formed_Element n k C d e \<longleftrightarrow>
     directions e \<in> set (combs C) \<and>
     length (position_along e) = k \<and> length (position_across e) = n - k \<and>
     list_all2 (\<lambda>p a. unat p < unat (d ! a)) (position_along e) (c_in (directions e)) \<and>
     list_all2 (\<lambda>p a. unat p < unat (d ! a) + 1) (position_across e) (c_out (directions e))"

subsection \<open>The specification's radices and the number \<^verbatim>\<open>index\<close> computes\<close>

text \<open>
  The radices of the specification for a combination: \<open>d[in(j)]\<close> along and
  \<open>d[out(j)] + 1\<close> across, not reduced.
\<close>

definition spec_radices :: "nat list \<Rightarrow> Combination \<Rightarrow> nat list" where
  "spec_radices d c = map (\<lambda>a. d ! a) (c_in c) @ map (\<lambda>a. d ! a + 1) (c_out c)"

text \<open>The number \<^verbatim>\<open>index\<close> computes, before it is reduced modulo \<open>2 ^ 32\<close>.\<close>

definition index_nat :: "Sint list \<Rightarrow> Combinations \<Rightarrow> Element \<Rightarrow> nat" where
  "index_nat d C e =
     sum_list (take (cindex C (directions e)) (map (spec_block_size (map unat d)) (combs C))) +
     mixed_radix (along_radices d (directions e) @ across_radices d (directions e))
       (map unat (position_along e @ position_across e))"

text \<open>
  Modelled from the spec: \<^verbatim>\<open>Combinations<4,1>\<close>, the four single axes in increasing
  order, each with its increasing complement.
\<close>

definition Combinations_4_1 :: Combinations where
  "Combinations_4_1 =
     \<lparr>combs = [\<lparr>c_in = [0], c_out = [1, 2, 3]\<rparr>, \<lparr>c_in = [1], c_out = [0, 2, 3]\<rparr>,
               \<lparr>c_in = [2], c_out = [0, 1, 3]\<rparr>, \<lparr>c_in = [3], c_out = [0, 1, 2]\<rparr>],
      cindex = (\<lambda>c. hd (c_in c))\<rparr>"

subsection \<open>Radices that \<^verbatim>\<open>Tint\<close> holds unchanged, and the round trip\<close>

text \<open>
  For the combination \<open>c\<close>, every radix that the code stores in \<^verbatim>\<open>Tint fdim\<close> is
  the radix of the specification.
\<close>

definition radices_fit_Tint :: "Sint list \<Rightarrow> Combination \<Rightarrow> bool" where
  "radices_fit_Tint d c \<longleftrightarrow>
     along_radices d c @ across_radices d c = spec_radices (map unat d) c"

text \<open>\<^verbatim>\<open>index(operator[](i))\<close> returns \<open>i\<close>.\<close>

definition roundtrip_at :: "nat \<Rightarrow> nat \<Rightarrow> Combinations \<Rightarrow> Lexicographic \<Rightarrow> Bint \<Rightarrow> bool" where
  "roundtrip_at n k C L i \<longleftrightarrow>
     rbind (Lexicographic_at n k C L i) (Lexicographic_index n k C L) = Ok i"

section \<open>Helper lemmas\<close>

lemma rbind_Ok [simp]: "rbind (Ok v) f = f v"
  by (simp add: rbind_def)

lemma rbind_Fail [simp]: "rbind (Fail e) f = Fail e"
  by (simp add: rbind_def)

lemma forM_append: "forM body (xs @ ys) s = rbind (forM body xs s) (forM body ys)"
  by (induction xs arbitrary: s) (auto split: result.splits)

lemma for_Tint_upto:
  assumes hi: "hi \<le> 255" and body: "\<And>j s. j < hi \<Longrightarrow> body j s = Some (g j s)"
  shows "unat i \<le> hi \<Longrightarrow> for_Tint hi body i s = Some (forM g [unat i..<hi] s)"
proof (induction "hi - unat i" arbitrary: i s)
  case 0
  then show ?case by (subst for_Tint.simps) simp
next
  case (Suc m)
  then have lt: "unat i < hi" by simp
  with hi have "unat i < 255" by simp
  then have nx: "unat (i + 1) = Suc (unat i)"
    by (simp add: unat_word_ariths)
  have IH: "\<And>s. for_Tint hi body (i + 1) s = Some (forM g [Suc (unat i)..<hi] s)"
    using Suc.hyps(1) [of "i + 1"] Suc.hyps(2) lt nx by simp
  show ?case
    by (subst for_Tint.simps) (simp add: lt body IH upt_conv_Cons split: result.splits)
qed

lemma for_Tint_total:
  assumes "hi \<le> 255" and "\<And>j s. j < hi \<Longrightarrow> body j s = Some (g j s)"
  shows "for_Tint hi body 0 s = Some (for_uint hi g s)"
  using for_Tint_upto [OF assms, where i = 0 and s = s] by (simp add: for_uint_def)

text \<open>With a bound above 255 the loop returns only if an iteration fails.\<close>

lemma for_Tint_returns:
  assumes "for_Tint hi body i s = Some y"
  shows "hi \<le> 255 \<or> (\<exists>j s e. body j s = Some (Fail e))"
proof (rule for_Tint.raw_induct
    [where P = "\<lambda>hi body i s y. hi \<le> 255 \<or> (\<exists>j s e. body j s = Some (Fail e))", OF _ assms])
  fix f :: "nat \<Rightarrow> (nat \<Rightarrow> 'a \<Rightarrow> 'a result option) \<Rightarrow> Tint \<Rightarrow> 'a \<Rightarrow> 'a result option"
  fix hi body i s y
  assume IH: "\<And>hi body i s y. f hi body i s = Some y \<Longrightarrow>
                hi \<le> 255 \<or> (\<exists>j s e. body j s = Some (Fail e))"
    and eq: "(if unat i < hi
              then Option.bind (body (unat i) s)
                     (\<lambda>r. case r of Ok s' \<Rightarrow> f hi body (i + 1) s' | Fail e \<Rightarrow> Some (Fail e))
              else Some (Ok s)) = Some y"
  show "hi \<le> 255 \<or> (\<exists>j s e. body j s = Some (Fail e))"
  proof (cases "unat i < hi")
    case False
    have "unat i < 2 ^ 8" using unsigned_less [of i] by simp
    with False show ?thesis by simp
  next
    case True
    then obtain r where r: "body (unat i) s = Some r"
      and rest: "(case r of Ok s' \<Rightarrow> f hi body (i + 1) s' | Fail e \<Rightarrow> Some (Fail e)) = Some y"
      using eq by (auto simp add: bind_eq_Some_conv)
    show ?thesis
    proof (cases r)
      case (Ok s')
      with rest have "f hi body (i + 1) s' = Some y" by simp
      then show ?thesis by (rule IH)
    next
      case (Fail e)
      with r show ?thesis by blast
    qed
  qed
qed

lemma for_Tint_diverges:
  assumes "255 < hi" and "\<And>j s. \<exists>s'. body j s = Some (Ok s')"
  shows "for_Tint hi body i s = None"
proof (cases "for_Tint hi body i s")
  case None
  then show ?thesis .
next
  case (Some y)
  then have "hi \<le> 255 \<or> (\<exists>j s e. body j s = Some (Fail e))"
    by (rule for_Tint_returns)
  with assms(1) obtain j s e where "body j s = Some (Fail e)" by auto
  with assms(2) [of j s] show ?thesis by simp
qed

lemma forM_fold:
  assumes "\<And>i s. i < length xs \<Longrightarrow> body i s = Ok (f (xs ! i) s)"
  shows "forM body [0..<length xs] s = Ok (fold f xs s)"
  using assms
proof (induction xs arbitrary: s rule: rev_induct)
  case Nil
  then show ?case by simp
next
  case (snoc x xs)
  have "forM body [0..<length xs] s = Ok (fold f xs s)"
    by (rule snoc.IH) (use snoc.prems [of _ ] in \<open>simp add: nth_append\<close>)
  moreover have "body (length xs) (fold f xs s) = Ok (f x (fold f xs s))"
    using snoc.prems [of "length xs"] by simp
  ultimately show ?case by (simp add: forM_append)
qed

lemma unat_Tint_of_nat: "b \<le> 255 \<Longrightarrow> unat (of_nat b :: Tint) = b"
  by (simp add: unat_of_nat)

lemma fold_mult:
  "fold (\<lambda>a p. p * h a) xs (p :: 'a :: comm_monoid_mult) = p * prod_list (map h xs)"
  by (induction xs arbitrary: p) (simp_all add: mult.assoc)

lemma wf_Combination_axes:
  assumes "wf_Combination n k c"
  shows "set (c_in c) \<union> set (c_out c) = {0..<n}"
proof -
  have "set (sort (c_in c @ c_out c)) = set [0..<n]"
    using assms by (simp add: wf_Combination_def)
  then show ?thesis by simp
qed

lemma wf_Combination_in_lt: "wf_Combination n k c \<Longrightarrow> a \<in> set (c_in c) \<Longrightarrow> a < n"
  using wf_Combination_axes [of n k c] by auto

lemma wf_Combination_out_lt: "wf_Combination n k c \<Longrightarrow> a \<in> set (c_out c) \<Longrightarrow> a < n"
  using wf_Combination_axes [of n k c] by auto

lemma mul_in_loop:
  assumes "k \<le> 255" and "wf_Combination n k c" and "length d = n"
  shows "for_Tint k (mul_in d c) 0 p =
         Some (Ok (p * prod_list (map (\<lambda>a. ucast (d ! a)) (c_in c))))"
proof -
  let ?g = "\<lambda>j p. rbind (rd (c_in c) j) (\<lambda>a. rbind (rd d a) (\<lambda>x. Ok (p * ucast x)))"
  have len: "length (c_in c) = k"
    using assms(2) by (simp add: wf_Combination_def)
  have "for_Tint k (mul_in d c) 0 p = Some (for_uint k ?g p)"
    by (rule for_Tint_total [OF assms(1)]) (simp add: mul_in_def)
  moreover have "forM ?g [0..<length (c_in c)] p =
                 Ok (fold (\<lambda>a p. p * ucast (d ! a)) (c_in c) p)"
  proof (rule forM_fold)
    fix i s assume "i < length (c_in c)"
    moreover from this have "c_in c ! i < length d"
      using wf_Combination_in_lt [OF assms(2), of "c_in c ! i"] assms(3) by simp
    ultimately show "?g i s = Ok (s * ucast (d ! (c_in c ! i)))"
      by (simp add: rd_def)
  qed
  ultimately show ?thesis
    by (simp add: for_uint_def len fold_mult)
qed

lemma mul_out_loop:
  assumes "n - k \<le> 255" and "wf_Combination n k c" and "length d = n"
  shows "for_Tint (n - k) (mul_out d c) 0 p =
         Some (Ok (p * prod_list (map (\<lambda>a. 1 + ucast (d ! a)) (c_out c))))"
proof -
  let ?g = "\<lambda>j p. rbind (rd (c_out c) j) (\<lambda>a. rbind (rd d a) (\<lambda>x. Ok (p * (1 + ucast x))))"
  have len: "length (c_out c) = n - k"
    using assms(2) by (simp add: wf_Combination_def)
  have "for_Tint (n - k) (mul_out d c) 0 p = Some (for_uint (n - k) ?g p)"
    by (rule for_Tint_total [OF assms(1)]) (simp add: mul_out_def)
  moreover have "forM ?g [0..<length (c_out c)] p =
                 Ok (fold (\<lambda>a p. p * (1 + ucast (d ! a))) (c_out c) p)"
  proof (rule forM_fold)
    fix i s assume "i < length (c_out c)"
    moreover from this have "c_out c ! i < length d"
      using wf_Combination_out_lt [OF assms(2), of "c_out c ! i"] assms(3) by simp
    ultimately show "?g i s = Ok (s * (1 + ucast (d ! (c_out c ! i))))"
      by (simp add: rd_def)
  qed
  ultimately show ?thesis
    by (simp add: for_uint_def len fold_mult)
qed

lemma block_body_value:
  assumes "legal_parameters n k C" and "length d = n" and "i < binomial_nk n k"
  shows "block_body n k C d i bs =
         Some (if i < length bs then Ok (bs[i := block_product d (combs C ! i)])
               else Fail ArrayBounds)"
proof -
  have wf: "wf_Combinations n k C" and k: "k \<le> 255" and nk: "n - k \<le> 255"
    using assms(1) by (auto simp add: legal_parameters_def)
  have len: "length (combs C) = binomial_nk n k"
    using wf by (simp add: wf_Combinations_def)
  have c: "wf_Combination n k (combs C ! i)"
    using wf assms(3) len by (simp add: wf_Combinations_def list_all_length)
  show ?thesis
    by (simp add: block_body_def rd_def len assms(3) mul_in_loop [OF k c assms(2)]
        mul_out_loop [OF nk c assms(2)] block_product_def)
qed

lemma forM_update_all:
  assumes "\<And>i bs. i < m \<Longrightarrow> length bs = m \<Longrightarrow> body i bs = Ok (bs[i := f i])"
  shows "j \<le> m \<Longrightarrow> length bs = m \<Longrightarrow>
         forM body [0..<j] bs = Ok (map f [0..<j] @ drop j bs)"
proof (induction j)
  case 0
  then show ?case by simp
next
  case (Suc j)
  then have "forM body [0..<j] bs = Ok (map f [0..<j] @ drop j bs)" by simp
  moreover have "body j (map f [0..<j] @ drop j bs) = Ok ((map f [0..<j] @ drop j bs)[j := f j])"
    using Suc.prems by (intro assms) simp_all
  moreover have "drop j bs = bs ! j # drop (Suc j) bs"
    using Suc.prems by (simp add: Cons_nth_drop_Suc)
  then have "(map f [0..<j] @ drop j bs)[j := f j] = map f [0..<Suc j] @ drop (Suc j) bs"
    by (simp add: list_update_append)
  ultimately show ?case by (simp add: forM_append)
qed

lemma Lexicographic_ctor_value:
  assumes "legal_parameters n k C" and "length d = n"
  shows "Lexicographic_ctor n k C d =
         Some (Ok \<lparr>dimensions = d, block_sizes = map (block_product d) (combs C)\<rparr>)"
proof -
  let ?m = "binomial_nk n k"
  let ?f = "\<lambda>i. block_product d (combs C ! i)"
  let ?g = "\<lambda>i bs. if i < length bs then Ok (bs[i := ?f i]) else Fail ArrayBounds"
  have m: "?m \<le> 255" and len: "length (combs C) = ?m"
    using assms(1) by (simp_all add: legal_parameters_def wf_Combinations_def)
  have "for_Tint ?m (block_body n k C d) 0 (replicate ?m 0) = Some (for_uint ?m ?g (replicate ?m 0))"
    by (rule for_Tint_total [OF m]) (simp add: block_body_value [OF assms])
  moreover have "forM ?g [0..<?m] (replicate ?m 0) = Ok (map ?f [0..<?m] @ drop ?m (replicate ?m 0))"
    by (rule forM_update_all [where m = ?m]) simp_all
  moreover have "map ?f [0..<?m] = map (block_product d) (combs C)"
    using len by (simp add: list_eq_iff_nth_eq)
  ultimately show ?thesis
    by (simp add: Lexicographic_ctor_def for_uint_def)
qed

lemma of_nat_prod_list:
  "(of_nat (prod_list xs) :: 'a :: comm_semiring_1) = prod_list (map of_nat xs)"
  by (induction xs) simp_all

lemma of_nat_sum_list:
  "(of_nat (sum_list xs) :: 'a :: comm_semiring_1) = sum_list (map of_nat xs)"
  by (induction xs) simp_all

lemma ucast_of_nat_unat: "(ucast (x :: Sint) :: Bint) = of_nat (unat x)"
  by simp

lemma block_product_of_nat:
  assumes "wf_Combination n k c" and "length d = n"
  shows "block_product d c = of_nat (spec_block_size (map unat d) c)"
proof -
  have "map (\<lambda>a. (ucast (d ! a) :: Bint)) (c_in c) = map of_nat (map (\<lambda>a. map unat d ! a) (c_in c))"
    using wf_Combination_in_lt [OF assms(1)] assms(2) by simp
  moreover have "map (\<lambda>a. 1 + (ucast (d ! a) :: Bint)) (c_out c) =
                 map of_nat (map (\<lambda>a. map unat d ! a + 1) (c_out c))"
    using wf_Combination_out_lt [OF assms(1)] assms(2) by simp
  ultimately show ?thesis
    by (simp only: block_product_def spec_block_size_def of_nat_mult of_nat_prod_list)
qed

lemma Lexicographic_size_value: "Lexicographic_size L = Ok (sum_list (block_sizes L))"
proof -
  have "forM (size_body (block_sizes L)) [0..<length (block_sizes L)] 0 =
        Ok (fold (\<lambda>x acc. acc + x) (block_sizes L) 0)"
    by (rule forM_fold) (simp add: size_body_def rd_def)
  moreover have "fold (\<lambda>x acc. acc + x) xs a = a + sum_list xs" for xs and a :: Bint
    by (induction xs arbitrary: a) (simp_all add: add.assoc)
  ultimately show ?thesis
    by (simp add: Lexicographic_size_def for_uint_def)
qed

lemma wf_Combinations_nth:
  "wf_Combinations n k C \<Longrightarrow> b < binomial_nk n k \<Longrightarrow> wf_Combination n k (combs C ! b)"
  by (simp add: wf_Combinations_def list_all_length)

lemma wf_Combinations_mem:
  "wf_Combinations n k C \<Longrightarrow> c \<in> set (combs C) \<Longrightarrow> wf_Combination n k c"
  by (simp add: wf_Combinations_def list_all_iff)

lemma block_sizes_of_nat:
  assumes "wf_Combinations n k C" and "length d = n"
  shows "map (block_product d) (combs C) = map (\<lambda>c. of_nat (spec_block_size (map unat d) c)) (combs C)"
  using block_product_of_nat [OF wf_Combinations_mem [OF assms(1)] assms(2)] by simp

lemma sum_block_sizes_of_nat:
  assumes "wf_Combinations n k C" and "length d = n"
  shows "sum_list (map (block_product d) (combs C)) = of_nat (spec_size (map unat d) C)"
  by (simp add: block_sizes_of_nat [OF assms] spec_size_def of_nat_sum_list comp_def)

lemma member_le_sum_list_nat: "x \<in> set xs \<Longrightarrow> (x :: nat) \<le> sum_list xs"
  by (induction xs) auto

lemma legal_parameters_2_1: "legal_parameters 2 1 Combinations_2_1"
  by (simp add: legal_parameters_def wf_Combinations_def wf_Combination_def binomial_nk_def
      Combinations_2_1_def upt_rec numeral_2_eq_2)

lemma legal_parameters_2_0: "legal_parameters 2 0 Combinations_2_0"
  by (simp add: legal_parameters_def wf_Combinations_def wf_Combination_def binomial_nk_def
      Combinations_2_0_def upt_rec numeral_2_eq_2)

section \<open>The constructor, \<^verbatim>\<open>block_size\<close> and \<^verbatim>\<open>size\<close>\<close>

text \<open>
  Claim C3, as amended. For legal template parameters and a shape \<open>d\<close> of length
  \<open>n\<close> whose number of cells \<open>spec_size\<close> fits \<^verbatim>\<open>Bint\<close>, the constructor returns
  an enumerator; for every block \<open>b < binomial_nk n k\<close>, \<^verbatim>\<open>block_size(b)\<close> is the product
  of \<open>d[in(j)]\<close> over the chosen axes of combination \<open>b\<close> times the product of
  \<open>d[out(j)] + 1\<close> over its complement axes; and \<^verbatim>\<open>size()\<close> is the sum of these
  over all blocks.
\<close>

theorem block_sizes_and_size:
  assumes "legal_parameters n k C" and "length d = n"
    and "spec_size (map unat d) C < 2 ^ 32"
  shows "\<exists>L. Lexicographic_ctor n k C d = Some (Ok L) \<and>
           (\<forall>b<binomial_nk n k. \<exists>v. Lexicographic_block_size L (of_nat b) = Ok v \<and>
                unat v = spec_block_size (map unat d) (combs C ! b)) \<and>
           (\<exists>s. Lexicographic_size L = Ok s \<and>
                unat s = (\<Sum>b<binomial_nk n k. spec_block_size (map unat d) (combs C ! b)))"
proof -
  let ?L = "\<lparr>dimensions = d, block_sizes = map (block_product d) (combs C)\<rparr>"
  have wf: "wf_Combinations n k C"
    using assms(1) by (simp add: legal_parameters_def)
  have len: "length (combs C) = binomial_nk n k"
    using wf by (simp add: wf_Combinations_def)
  have blk: "\<exists>v. Lexicographic_block_size ?L (of_nat b) = Ok v \<and>
                unat v = spec_block_size (map unat d) (combs C ! b)"
    if b: "b < binomial_nk n k" for b
  proof -
    have "spec_block_size (map unat d) (combs C ! b) \<le> spec_size (map unat d) C"
      unfolding spec_size_def using b len by (intro member_le_sum_list_nat) simp
    then have "spec_block_size (map unat d) (combs C ! b) < 2 ^ 32"
      using assms(3) by simp
    then have "unat (of_nat (spec_block_size (map unat d) (combs C ! b)) :: Bint) =
               spec_block_size (map unat d) (combs C ! b)"
      by (simp add: unat_of_nat)
    moreover have "unat (of_nat b :: Tint) = b"
      using b assms(1) by (intro unat_Tint_of_nat) (simp add: legal_parameters_def)
    ultimately show ?thesis
      using b len block_product_of_nat [OF wf_Combinations_nth [OF wf b] assms(2)]
      by (simp add: Lexicographic_block_size_def rd_def)
  qed
  have "spec_size (map unat d) C = (\<Sum>b<binomial_nk n k. spec_block_size (map unat d) (combs C ! b))"
    unfolding spec_size_def len [symmetric]
    by (simp add: sum_list_sum_nth atLeast0LessThan)
  moreover have "unat (of_nat (spec_size (map unat d) C) :: Bint) = spec_size (map unat d) C"
    using assms(3) by (simp add: unat_of_nat)
  ultimately have "\<exists>s. Lexicographic_size ?L = Ok s \<and>
        unat s = (\<Sum>b<binomial_nk n k. spec_block_size (map unat d) (combs C ! b))"
    by (simp add: Lexicographic_size_value sum_block_sizes_of_nat [OF wf assms(2)])
  with blk Lexicographic_ctor_value [OF assms(1,2)] show ?thesis
    by blast
qed

theorem block_sizes_and_size_witness:
  "legal_parameters 2 1 Combinations_2_1 \<and> length [2, 3 :: Sint] = 2 \<and>
   spec_size (map unat [2, 3 :: Sint]) Combinations_2_1 < 2 ^ 32 \<and> (1 :: nat) < binomial_nk 2 1 \<and>
   (\<exists>L. Lexicographic_ctor 2 1 Combinations_2_1 [2, 3] = Some (Ok L) \<and>
      (\<forall>b<binomial_nk 2 1. \<exists>v. Lexicographic_block_size L (of_nat b) = Ok v \<and>
           unat v = spec_block_size (map unat [2, 3 :: Sint]) (combs Combinations_2_1 ! b)) \<and>
      (\<exists>s. Lexicographic_size L = Ok s \<and>
           unat s = (\<Sum>b<binomial_nk 2 1.
                       spec_block_size (map unat [2, 3 :: Sint]) (combs Combinations_2_1 ! b))))"
proof -
  have h2: "length [2, 3 :: Sint] = 2" by simp
  have h3: "spec_size (map unat [2, 3 :: Sint]) Combinations_2_1 < 2 ^ 32"
    by (simp add: spec_size_def spec_block_size_def Combinations_2_1_def)
  have h4: "(1 :: nat) < binomial_nk 2 1" by (simp add: binomial_nk_def)
  show ?thesis
    using legal_parameters_2_1 h2 h3 h4
      block_sizes_and_size [OF legal_parameters_2_1 h2 h3] by blast
qed

text \<open>
  Without that bound the products wrap: for \<open>n = 2\<close>, \<open>k = 0\<close> and
  \<open>d = (65535, 65535)\<close> the only block has \<open>65536 * 65536 = 2 ^ 32\<close> cells, and
  both \<^verbatim>\<open>block_size(0)\<close> and \<^verbatim>\<open>size()\<close> are 0.
\<close>

theorem block_size_overflow_example:
  "legal_parameters 2 0 Combinations_2_0 \<and>
   Lexicographic_ctor 2 0 Combinations_2_0 [65535, 65535]
     = Some (Ok \<lparr>dimensions = [65535, 65535], block_sizes = [0]\<rparr>) \<and>
   Lexicographic_block_size \<lparr>dimensions = [65535, 65535], block_sizes = [0]\<rparr> 0 = Ok 0 \<and>
   Lexicographic_size \<lparr>dimensions = [65535, 65535], block_sizes = [0]\<rparr> = Ok 0 \<and>
   spec_block_size (map unat [65535, 65535 :: Sint]) (combs Combinations_2_0 ! 0) = 4294967296"
proof -
  have "Lexicographic_ctor 2 0 Combinations_2_0 [65535, 65535]
     = Some (Ok \<lparr>dimensions = [65535, 65535], block_sizes = [0]\<rparr>)"
    using Lexicographic_ctor_value [OF legal_parameters_2_0, of "[65535, 65535]"]
    by (simp add: block_product_def Combinations_2_0_def)
  moreover have "Lexicographic_block_size \<lparr>dimensions = [65535, 65535], block_sizes = [0]\<rparr> 0 = Ok 0"
    by (simp add: Lexicographic_block_size_def rd_def)
  moreover have "Lexicographic_size \<lparr>dimensions = [65535, 65535], block_sizes = [0]\<rparr> = Ok 0"
    by (simp add: Lexicographic_size_value)
  moreover have "spec_block_size (map unat [65535, 65535 :: Sint]) (combs Combinations_2_0 ! 0) = 4294967296"
    by (simp add: spec_block_size_def Combinations_2_0_def)
  ultimately show ?thesis
    using legal_parameters_2_0 by simp
qed

section \<open>Corner cases: vertices and top-dimensional cells\<close>

lemma prod_list_insort:
  "prod_list (map f (insort x xs)) = (f x :: nat) * prod_list (map f xs)"
  by (induction xs) simp_all

lemma prod_list_sort: "prod_list (map f (sort xs)) = (prod_list (map f xs) :: nat)"
  by (induction xs) (simp_all add: prod_list_insort)

lemma prod_list_all_axes:
  assumes "sort xs = [0..<length d]"
  shows "prod_list (map (\<lambda>a. f (d ! a)) xs) = (prod_list (map f d) :: nat)"
proof -
  have "prod_list (map (\<lambda>a. f (d ! a)) xs) = prod_list (map (\<lambda>a. f (d ! a)) (sort xs))"
    by (simp add: prod_list_sort)
  also have "\<dots> = prod_list (map f (map (\<lambda>a. d ! a) [0..<length d]))"
    by (simp add: assms comp_def)
  finally show ?thesis by (simp add: map_nth)
qed

lemma Lexicographic_size_after_ctor:
  assumes "legal_parameters n k C" and "length d = n"
  shows "\<exists>L. Lexicographic_ctor n k C d = Some (Ok L) \<and>
             Lexicographic_size L = Ok (of_nat (spec_size (map unat d) C))"
proof -
  have wf: "wf_Combinations n k C"
    using assms(1) by (simp add: legal_parameters_def)
  show ?thesis
    by (simp add: Lexicographic_ctor_value [OF assms] Lexicographic_size_value
        sum_block_sizes_of_nat [OF wf assms(2)])
qed

lemma single_combination:
  assumes "wf_Combinations n k C" and "binomial_nk n k = 1"
  obtains c where "combs C = [c]" and "wf_Combination n k c"
proof -
  have "length (combs C) = 1"
    using assms by (simp add: wf_Combinations_def)
  then obtain c where c: "combs C = [c]"
    by (cases "combs C") auto
  then have "wf_Combination n k c"
    using wf_Combinations_mem [OF assms(1), of c] by simp
  with c show ?thesis by (rule that)
qed

lemma spec_size_k0:
  assumes "wf_Combinations n 0 C" and "length d = n"
  shows "spec_size d C = prod_list (map (\<lambda>x. x + 1) d)"
proof -
  obtain c where c: "combs C = [c]" and wf: "wf_Combination n 0 c"
    using single_combination [OF assms(1)] by (auto simp add: binomial_nk_def)
  from wf have "c_in c = []" and "sort (c_out c) = [0..<length d]"
    using assms(2) by (auto simp add: wf_Combination_def)
  then show ?thesis
    using prod_list_all_axes [where f = Suc and d = d and xs = "c_out c"]
    by (simp add: spec_size_def c spec_block_size_def)
qed

lemma spec_size_kn:
  assumes "wf_Combinations n n C" and "length d = n"
  shows "spec_size d C = prod_list d"
proof -
  obtain c where c: "combs C = [c]" and wf: "wf_Combination n n c"
    using single_combination [OF assms(1)] by (auto simp add: binomial_nk_def)
  from wf have "c_out c = []" and "sort (c_in c) = [0..<length d]"
    using assms(2) by (auto simp add: wf_Combination_def)
  then show ?thesis
    using prod_list_all_axes [where f = "\<lambda>x. x" and d = d and xs = "c_in c"]
    by (simp add: spec_size_def c spec_block_size_def)
qed

text \<open>
  Claim C8, as amended. For legal template parameters and a shape \<open>d\<close> of length
  \<open>n\<close>: when \<open>k = 0\<close> and the product over all axes of \<open>d[i] + 1\<close> fits
  \<^verbatim>\<open>Bint\<close>, \<^verbatim>\<open>size()\<close> is that product; when \<open>k = n\<close> and the product over all
  axes of \<open>d[i]\<close> fits \<^verbatim>\<open>Bint\<close>, \<^verbatim>\<open>size()\<close> is that product.
\<close>

theorem corner_case_sizes:
  assumes "legal_parameters n k C" and "length d = n"
  shows "(k = 0 \<and> prod_list (map (\<lambda>x. unat x + 1) d) < 2 ^ 32 \<longrightarrow>
            (\<exists>L. Lexicographic_ctor n k C d = Some (Ok L) \<and>
                (\<exists>s. Lexicographic_size L = Ok s \<and>
                     unat s = prod_list (map (\<lambda>x. unat x + 1) d)))) \<and>
         (k = n \<and> prod_list (map unat d) < 2 ^ 32 \<longrightarrow>
            (\<exists>L. Lexicographic_ctor n k C d = Some (Ok L) \<and>
                (\<exists>s. Lexicographic_size L = Ok s \<and> unat s = prod_list (map unat d))))"
proof -
  have wf: "wf_Combinations n k C"
    using assms(1) by (simp add: legal_parameters_def)
  obtain L where L: "Lexicographic_ctor n k C d = Some (Ok L)"
    and sz: "Lexicographic_size L = Ok (of_nat (spec_size (map unat d) C))"
    using Lexicographic_size_after_ctor [OF assms] by blast
  have "unat (of_nat (spec_size (map unat d) C) :: Bint) = prod_list (map (\<lambda>x. unat x + 1) d)"
    if "k = 0" and "prod_list (map (\<lambda>x. unat x + 1) d) < 2 ^ 32"
    using that wf assms(2) spec_size_k0 [of n C "map unat d"]
    by (simp add: unat_of_nat comp_def)
  moreover have "unat (of_nat (spec_size (map unat d) C) :: Bint) = prod_list (map unat d)"
    if "k = n" and "prod_list (map unat d) < 2 ^ 32"
    using that wf assms(2) spec_size_kn [of n C "map unat d"]
    by (simp add: unat_of_nat)
  ultimately show ?thesis
    using L sz by auto
qed

lemma legal_parameters_1_0: "legal_parameters 1 0 Combinations_1_0"
  by (simp add: legal_parameters_def wf_Combinations_def wf_Combination_def binomial_nk_def
      Combinations_1_0_def)

lemma legal_parameters_1_1: "legal_parameters 1 1 Combinations_1_1"
  by (simp add: legal_parameters_def wf_Combinations_def wf_Combination_def binomial_nk_def
      Combinations_1_1_def)

theorem corner_case_sizes_witness:
  "(\<exists>L. Lexicographic_ctor 1 0 Combinations_1_0 [3] = Some (Ok L) \<and>
       (\<exists>s. Lexicographic_size L = Ok s \<and> unat s = 4)) \<and>
   (\<exists>L. Lexicographic_ctor 1 1 Combinations_1_1 [3] = Some (Ok L) \<and>
       (\<exists>s. Lexicographic_size L = Ok s \<and> unat s = 3))"
proof -
  have h: "length [3 :: Sint] = 1" by simp
  have p0: "prod_list (map (\<lambda>x. unat x + 1) [3 :: Sint]) = 4" by simp
  have p1: "prod_list (map unat [3 :: Sint]) = 3" by simp
  have "\<exists>L. Lexicographic_ctor 1 0 Combinations_1_0 [3] = Some (Ok L) \<and>
            (\<exists>s. Lexicographic_size L = Ok s \<and> unat s = 4)"
    using corner_case_sizes [OF legal_parameters_1_0 h, THEN conjunct1] unfolding p0 by simp
  moreover have "\<exists>L. Lexicographic_ctor 1 1 Combinations_1_1 [3] = Some (Ok L) \<and>
            (\<exists>s. Lexicographic_size L = Ok s \<and> unat s = 3)"
    using corner_case_sizes [OF legal_parameters_1_1 h, THEN conjunct2] unfolding p1 by simp
  ultimately show ?thesis by simp
qed

text \<open>
  Without the bound the count wraps: \<open>n = 2\<close>, \<open>k = 0\<close>, \<open>d = (65535, 65535)\<close>
  has \<open>2 ^ 32\<close> vertices, and \<^verbatim>\<open>size()\<close> is 0.
\<close>

theorem vertex_count_overflow_example:
  "legal_parameters 2 0 Combinations_2_0 \<and>
   Lexicographic_ctor 2 0 Combinations_2_0 [65535, 65535]
     = Some (Ok \<lparr>dimensions = [65535, 65535], block_sizes = [0]\<rparr>) \<and>
   Lexicographic_size \<lparr>dimensions = [65535, 65535], block_sizes = [0]\<rparr> = Ok 0 \<and>
   prod_list (map (\<lambda>x. unat x + 1) [65535, 65535 :: Sint]) = 4294967296"
proof -
  have "Lexicographic_ctor 2 0 Combinations_2_0 [65535, 65535]
     = Some (Ok \<lparr>dimensions = [65535, 65535], block_sizes = [0]\<rparr>)"
    using Lexicographic_ctor_value [OF legal_parameters_2_0, of "[65535, 65535]"]
    by (simp add: block_product_def Combinations_2_0_def)
  moreover have "Lexicographic_size \<lparr>dimensions = [65535, 65535], block_sizes = [0]\<rparr> = Ok 0"
    by (simp add: Lexicographic_size_value)
  ultimately show ?thesis
    using legal_parameters_2_0 by simp
qed

section \<open>Locating the block\<close>

lemma locate_le: "locate bs b idx = (b', idx') \<Longrightarrow> b \<le> b'"
proof (induction bs b idx rule: locate.induct)
  case (1 bs b index)
  show ?case
  proof (cases "b < length bs \<and> \<not> index < bs ! b")
    case True
    then have "locate bs (b + 1) (index - bs ! b) = (b', idx')"
      using "1.prems" by (subst (asm) locate.simps) simp
    with True "1.IH" show ?thesis by simp
  next
    case False
    then have "b' = b"
      using "1.prems" by (subst (asm) locate.simps) (auto split: if_splits)
    then show ?thesis by simp
  qed
qed

lemma locate_bound: "locate bs b idx = (b', idx') \<Longrightarrow> b \<le> length bs \<Longrightarrow> b' \<le> length bs"
proof (induction bs b idx rule: locate.induct)
  case (1 bs b index)
  show ?case
  proof (cases "b < length bs \<and> \<not> index < bs ! b")
    case True
    then have "locate bs (b + 1) (index - bs ! b) = (b', idx')"
      using "1.prems" by (subst (asm) locate.simps) simp
    with True "1.IH" show ?thesis by simp
  next
    case False
    then have "b' = b"
      using "1.prems" by (subst (asm) locate.simps) (auto split: if_splits)
    with "1.prems" show ?thesis by simp
  qed
qed

lemma locate_less: "locate bs b idx = (b', idx') \<Longrightarrow> b' < length bs \<Longrightarrow> idx' < bs ! b'"
proof (induction bs b idx rule: locate.induct)
  case (1 bs b index)
  show ?case
  proof (cases "b < length bs \<and> \<not> index < bs ! b")
    case True
    then have "locate bs (b + 1) (index - bs ! b) = (b', idx')"
      using "1.prems" by (subst (asm) locate.simps) simp
    with True "1.IH" "1.prems" show ?thesis by simp
  next
    case False
    then have "b' = b \<and> idx' = index"
      using "1.prems" by (subst (asm) locate.simps) (auto split: if_splits)
    with False "1.prems" show ?thesis by auto
  qed
qed

lemma take_drop_step:
  assumes "b < length bs" and "b < b'"
  shows "take (b' - b) (drop b bs) = bs ! b # take (b' - (b + 1)) (drop (b + 1) bs)"
proof -
  have "b' - b = Suc (b' - (b + 1))"
    using assms(2) by simp
  moreover have "drop b bs = bs ! b # drop (b + 1) bs"
    using assms(1) by (simp add: Cons_nth_drop_Suc)
  ultimately show ?thesis by simp
qed

lemma locate_sum:
  "locate bs b idx = (b', idx') \<Longrightarrow>
   unat idx = sum_list (map unat (take (b' - b) (drop b bs))) + unat idx'"
proof (induction bs b idx rule: locate.induct)
  case (1 bs b index)
  show ?case
  proof (cases "b < length bs \<and> \<not> index < bs ! b")
    case True
    then have rec: "locate bs (b + 1) (index - bs ! b) = (b', idx')"
      using "1.prems" by (subst (asm) locate.simps) simp
    then have le: "b + 1 \<le> b'" by (rule locate_le)
    have "unat (index - bs ! b) = unat index - unat (bs ! b)"
      using True by (simp add: unat_sub not_less)
    moreover have "unat (bs ! b) \<le> unat index"
      using True by (simp add: word_le_nat_alt [symmetric] not_less)
    moreover have "take (b' - b) (drop b bs) = bs ! b # take (b' - (b + 1)) (drop (b + 1) bs)"
      using True le by (intro take_drop_step) simp_all
    ultimately show ?thesis
      using "1.IH" [OF _ _ rec] True by simp
  next
    case False
    then have "b' = b \<and> idx' = index"
      using "1.prems" by (subst (asm) locate.simps) (auto split: if_splits)
    then show ?thesis by simp
  qed
qed

lemma locate_unique:
  "b' < length bs \<Longrightarrow> b \<le> b' \<Longrightarrow>
   unat idx = sum_list (map unat (take (b' - b) (drop b bs))) + h \<Longrightarrow> h < unat (bs ! b') \<Longrightarrow>
   locate bs b idx = (b', of_nat h)"
proof (induction bs b idx rule: locate.induct)
  case (1 bs b index)
  show ?case
  proof (cases "b = b'")
    case True
    with "1.prems" have "unat index = h" by simp
    then have "index = of_nat h" by auto
    moreover have "index < bs ! b'"
      using \<open>unat index = h\<close> "1.prems"(4) by (simp add: word_less_nat_alt)
    ultimately show ?thesis
      using True "1.prems"(1) by (subst locate.simps) simp
  next
    case False
    with "1.prems" have lt: "b < b'" and b: "b < length bs" by simp_all
    have tk: "take (b' - b) (drop b bs) = bs ! b # take (b' - (b + 1)) (drop (b + 1) bs)"
      using b lt by (rule take_drop_step)
    then have ge: "unat (bs ! b) \<le> unat index"
      using "1.prems"(3) by simp
    then have nlt: "\<not> index < bs ! b"
      by (simp add: word_less_nat_alt)
    have "unat (index - bs ! b) = unat index - unat (bs ! b)"
      using ge by (simp add: unat_sub word_le_nat_alt)
    then have "unat (index - bs ! b) =
               sum_list (map unat (take (b' - (b + 1)) (drop (b + 1) bs))) + h"
      using "1.prems"(3) tk by simp
    then have "locate bs (b + 1) (index - bs ! b) = (b', of_nat h)"
      using "1.IH" [OF b nlt "1.prems"(1)] lt "1.prems"(4) by simp
    then show ?thesis
      using b nlt by (subst locate.simps) simp
  qed
qed

lemma locate_end:
  "locate bs b idx = (b', idx') \<Longrightarrow> b \<le> length bs \<Longrightarrow>
   (b' = length bs) = (sum_list (map unat (drop b bs)) \<le> unat idx)"
proof (induction bs b idx rule: locate.induct)
  case (1 bs b index)
  show ?case
  proof (cases "b < length bs")
    case False
    then have "b' = b"
      using "1.prems" by (subst (asm) locate.simps) (auto split: if_splits)
    with False "1.prems" show ?thesis by simp
  next
    case b: True
    then have dr: "drop b bs = bs ! b # drop (b + 1) bs"
      by (simp add: Cons_nth_drop_Suc)
    show ?thesis
    proof (cases "index < bs ! b")
      case True
      then have "b' = b"
        using b "1.prems" by (subst (asm) locate.simps) simp
      moreover have "unat index < unat (bs ! b)"
        using True by (simp add: word_less_nat_alt)
      ultimately show ?thesis using b dr by simp
    next
      case False
      then have rec: "locate bs (b + 1) (index - bs ! b) = (b', idx')"
        using b "1.prems" by (subst (asm) locate.simps) simp
      have ge: "unat (bs ! b) \<le> unat index"
        using False by (simp add: word_less_nat_alt)
      then have "unat (index - bs ! b) = unat index - unat (bs ! b)"
        by (simp add: unat_sub word_le_nat_alt)
      then show ?thesis
        using "1.IH" [OF b False rec] b dr ge by auto
    qed
  qed
qed

section \<open>The digit loops of \<^verbatim>\<open>operator[]\<close>\<close>

lemma length_digits [simp]: "length (digits rs x) = length rs"
  by (induction rs arbitrary: x) simp_all

lemma digits_append:
  "digits (rs @ ss) x = digits rs x @ digits ss (x div prod_list rs)"
  by (induction rs arbitrary: x) (simp_all add: div_mult2_eq)

lemma word_div_of_nat:
  assumes "r < 2 ^ 32"
  shows "(idx :: Bint) div of_nat r = of_nat (unat idx div r)"
proof -
  have "unat (of_nat r :: Bint) = r"
    using assms by (simp add: unat_of_nat)
  then have "unat (idx div of_nat r) = unat idx div r"
    by (simp add: unat_div)
  then show ?thesis
    by (metis of_nat_unat ucast_id)
qed

lemma word_mod_of_nat:
  assumes "r < 2 ^ 32"
  shows "(ucast ((idx :: Bint) mod of_nat r) :: Sint) = of_nat (unat idx mod r)"
proof -
  have "unat (of_nat r :: Bint) = r"
    using assms by (simp add: unat_of_nat)
  then have "unat (idx mod of_nat r) = unat idx mod r"
    by (simp add: unat_mod)
  then show ?thesis
    by (metis of_nat_unat)
qed

lemma unat_of_nat_div:
  "unat (of_nat (unat (idx :: Bint) div p) :: Bint) = unat idx div p"
proof -
  have "unat idx div p \<le> unat idx" by simp
  also have "unat idx < 2 ^ 32" using unsigned_less [of idx] by simp
  finally show ?thesis by (simp add: unat_of_nat)
qed

lemma digit_loop:
  assumes body: "\<And>i arr idx. i < length rs \<Longrightarrow> length arr = length rs \<Longrightarrow>
      body i (arr, idx) =
        Ok (arr[i := of_nat (unat idx mod rs ! i)], (of_nat (unat idx div rs ! i) :: Bint))"
  shows "j \<le> length rs \<Longrightarrow> length arr = length rs \<Longrightarrow>
         forM body [0..<j] (arr :: Sint list, idx) =
           Ok (map of_nat (digits (take j rs) (unat idx)) @ drop j arr,
               of_nat (unat idx div prod_list (take j rs)))"
proof (induction j)
  case 0
  then show ?case by simp
next
  case (Suc j)
  let ?a = "map of_nat (digits (take j rs) (unat idx)) @ drop j arr"
  let ?x = "of_nat (unat idx div prod_list (take j rs)) :: Bint"
  have j: "j < length rs" using Suc.prems by simp
  have IH: "forM body [0..<j] (arr, idx) = Ok (?a, ?x)"
    using Suc by simp
  have len: "length ?a = length rs"
    using Suc.prems by simp
  have tk: "take (Suc j) rs = take j rs @ [rs ! j]"
    using j by (simp add: take_Suc_conv_app_nth)
  have dr: "drop j arr = arr ! j # drop (Suc j) arr"
    using j Suc.prems by (simp add: Cons_nth_drop_Suc)
  have upd: "?a[j := v] = map of_nat (digits (take j rs) (unat idx)) @ v # drop (Suc j) arr" for v
    using j by (simp add: dr list_update_append)
  have "body j (?a, ?x) =
        Ok (?a[j := of_nat (unat ?x mod rs ! j)], of_nat (unat ?x div rs ! j))"
    using body [OF j len] .
  then have "body j (?a, ?x) =
     Ok (map of_nat (digits (take (Suc j) rs) (unat idx)) @ drop (Suc j) arr,
         of_nat (unat idx div prod_list (take (Suc j) rs)))"
    by (simp add: upd tk digits_append unat_of_nat_div div_mult2_eq)
  with IH show ?case
    by (simp add: forM_append)
qed

lemma unat_Tint: "unat (ucast (y :: 'a :: len word) :: Tint) = unat y mod 256"
  by (simp add: unsigned_ucast_eq take_bit_eq_mod)

lemma Tint_to_Bint:
  "(ucast (ucast (y :: 'a :: len word) :: Tint) :: Bint) = of_nat (unat y mod 256)"
  by (metis of_nat_unat unat_Tint)

lemma Tint_zero: "(ucast (y :: 'a :: len word) :: Tint) = 0 \<longleftrightarrow> unat y mod 256 = 0"
  by (metis unat_Tint unat_eq_0)

lemma unat_succ_Sint: "unat (1 + (ucast (x :: Sint) :: Bint)) = unat x + 1"
proof -
  have "unat x < 2 ^ 16" using unsigned_less [of x] by simp
  then have "1 + unat x < 2 ^ 32" by simp
  then show ?thesis
    by (simp add: unat_word_ariths unsigned_ucast_eq take_bit_eq_mod)
qed

lemma along_loop:
  assumes "wf_Combination n k c" and "length d = n"
    and "\<forall>r\<in>set (along_radices d c). r \<noteq> 0"
  shows "for_uint k (along_body d c) (replicate k 0, idx) =
         Ok (map of_nat (digits (along_radices d c) (unat idx)),
             of_nat (unat idx div prod_list (along_radices d c)))"
proof -
  let ?rs = "along_radices d c"
  have len: "length ?rs = k"
    using assms(1) by (simp add: along_radices_def wf_Combination_def)
  have "forM (along_body d c) [0..<k] (replicate k 0, idx) =
        Ok (map of_nat (digits (take k ?rs) (unat idx)) @ drop k (replicate k 0),
            of_nat (unat idx div prod_list (take k ?rs)))"
  proof (rule digit_loop)
    fix i arr and idx :: Bint
    assume i: "i < length ?rs" and arr: "length (arr :: Sint list) = length ?rs"
    then have ik: "i < length (c_in c)" by (simp add: along_radices_def)
    then have a: "c_in c ! i < length d"
      using wf_Combination_in_lt [OF assms(1), of "c_in c ! i"] assms(2) by simp
    have r: "?rs ! i = unat (d ! (c_in c ! i)) mod 256"
      using ik by (simp add: along_radices_def)
    then have nz: "unat (d ! (c_in c ! i)) mod 256 \<noteq> 0"
      using assms(3) i by (metis nth_mem)
    have lt: "?rs ! i < 2 ^ 32"
      unfolding r by (rule less_trans [OF mod_less_divisor]) simp_all
    show "along_body d c i (arr, idx) =
          Ok (arr[i := of_nat (unat idx mod ?rs ! i)], of_nat (unat idx div ?rs ! i))"
      using ik a nz i arr lt
      by (simp add: along_body_def rd_def Tint_zero Tint_to_Bint Let_def r [symmetric]
          word_mod_of_nat word_div_of_nat)
  qed (simp_all add: len)
  then show ?thesis
    by (simp add: for_uint_def len)
qed

lemma across_loop:
  assumes "wf_Combination n k c" and "length d = n"
    and "\<forall>r\<in>set (across_radices d c). r \<noteq> 0"
  shows "for_uint (n - k) (across_body d c) (replicate (n - k) 0, idx) =
         Ok (map of_nat (digits (across_radices d c) (unat idx)),
             of_nat (unat idx div prod_list (across_radices d c)))"
proof -
  let ?rs = "across_radices d c"
  have len: "length ?rs = n - k"
    using assms(1) by (simp add: across_radices_def wf_Combination_def)
  have "forM (across_body d c) [0..<n - k] (replicate (n - k) 0, idx) =
        Ok (map of_nat (digits (take (n - k) ?rs) (unat idx)) @ drop (n - k) (replicate (n - k) 0),
            of_nat (unat idx div prod_list (take (n - k) ?rs)))"
  proof (rule digit_loop)
    fix i arr and idx :: Bint
    assume i: "i < length ?rs" and arr: "length (arr :: Sint list) = length ?rs"
    then have ik: "i < length (c_out c)" by (simp add: across_radices_def)
    then have a: "c_out c ! i < length d"
      using wf_Combination_out_lt [OF assms(1), of "c_out c ! i"] assms(2) by simp
    have r: "?rs ! i = (unat (d ! (c_out c ! i)) + 1) mod 256"
      using ik by (simp add: across_radices_def)
    then have nz: "(unat (d ! (c_out c ! i)) + 1) mod 256 \<noteq> 0"
      using assms(3) i by (metis nth_mem)
    have lt: "?rs ! i < 2 ^ 32"
      unfolding r by (rule less_trans [OF mod_less_divisor]) simp_all
    have r': "Suc (unat (d ! (c_out c ! i))) mod 256 = ?rs ! i"
      using r by simp
    show "across_body d c i (arr, idx) =
          Ok (arr[i := of_nat (unat idx mod ?rs ! i)], of_nat (unat idx div ?rs ! i))"
      using ik a nz i arr lt
      by (simp add: across_body_def rd_def Tint_zero Tint_to_Bint Let_def unat_succ_Sint
          r' word_mod_of_nat word_div_of_nat)
  qed (simp_all add: len)
  then show ?thesis
    by (simp add: for_uint_def len)
qed

lemma Lexicographic_at_thrown:
  assumes "locate (block_sizes L) 0 index = (b, idx)" and "b = length (block_sizes L)"
  shows "Lexicographic_at n k C L index = Fail (Thrown (length (block_sizes L)))"
  using assms by (simp add: Lexicographic_at_def)

lemma Lexicographic_at_value:
  assumes "wf_Combinations n k C" and "length (dimensions L) = n"
    and "length (block_sizes L) = binomial_nk n k"
    and "locate (block_sizes L) 0 index = (b, idx)" and "b < binomial_nk n k"
    and "\<forall>r\<in>set (along_radices (dimensions L) (combs C ! b)). r \<noteq> 0"
    and "\<forall>r\<in>set (across_radices (dimensions L) (combs C ! b)). r \<noteq> 0"
  shows "Lexicographic_at n k C L index =
         Ok \<lparr>directions = combs C ! b,
             position_along =
               map of_nat (digits (along_radices (dimensions L) (combs C ! b)) (unat idx)),
             position_across =
               map of_nat (digits (across_radices (dimensions L) (combs C ! b))
                 (unat idx div prod_list (along_radices (dimensions L) (combs C ! b))))\<rparr>"
proof -
  have c: "wf_Combination n k (combs C ! b)"
    using assms(1,5) by (rule wf_Combinations_nth)
  have len: "length (combs C) = binomial_nk n k"
    using assms(1) by (simp add: wf_Combinations_def)
  show ?thesis
    using assms(3,4,5) len
    by (simp add: Lexicographic_at_def rd_def along_loop [OF c assms(2,6)]
        across_loop [OF c assms(2,7)] unat_of_nat_div)
qed

lemma prod_list_zero: "(0 :: Bint) \<in> set xs \<Longrightarrow> prod_list xs = 0"
  by (induction xs) auto

lemma block_product_nonzero:
  assumes "block_product d c \<noteq> 0"
  shows "\<forall>a\<in>set (c_in c). d ! a \<noteq> 0"
proof
  fix a assume a: "a \<in> set (c_in c)"
  show "d ! a \<noteq> 0"
  proof
    assume "d ! a = 0"
    then have "(0 :: Bint) \<in> set (map (\<lambda>a. ucast (d ! a)) (c_in c))"
      using a by (auto simp add: image_iff intro!: bexI [of _ a])
    then show False
      using assms by (simp add: block_product_def prod_list_zero)
  qed
qed

lemma unat_sum_list_le: "unat (sum_list (xs :: Bint list)) \<le> sum_list (map unat xs)"
proof (induction xs)
  case Nil
  then show ?case by simp
next
  case (Cons x xs)
  have "unat (x + sum_list xs) \<le> unat x + unat (sum_list xs)"
    by (simp add: unat_word_ariths)
  with Cons show ?case by simp
qed

lemma unat_block_product:
  assumes "wf_Combination n k c" and "length d = n"
    and "spec_block_size (map unat d) c < 2 ^ 32"
  shows "unat (block_product d c) = spec_block_size (map unat d) c"
  using assms(3) by (simp add: block_product_of_nat [OF assms(1,2)] unat_of_nat)

lemma sum_unat_block_sizes:
  assumes "wf_Combinations n k C" and "length d = n"
    and "spec_size (map unat d) C < 2 ^ 32"
  shows "map unat (map (block_product d) (combs C)) = map (spec_block_size (map unat d)) (combs C)"
proof -
  have "unat (block_product d c) = spec_block_size (map unat d) c" if "c \<in> set (combs C)" for c
  proof (rule unat_block_product [OF wf_Combinations_mem [OF assms(1) that] assms(2)])
    have "spec_block_size (map unat d) c \<le> spec_size (map unat d) C"
      unfolding spec_size_def using that by (intro member_le_sum_list_nat) simp
    then show "spec_block_size (map unat d) c < 2 ^ 32"
      using assms(3) by simp
  qed
  then show ?thesis by simp
qed

lemma fits_Tint_nth: "fits_Tint d \<Longrightarrow> a < length d \<Longrightarrow> unat (d ! a) < 255"
  by (simp add: fits_Tint_def list_all_length)

lemma along_radices_fit:
  assumes "wf_Combination n k c" and "length d = n" and "fits_Tint d"
  shows "along_radices d c = map (\<lambda>a. map unat d ! a) (c_in c)"
proof -
  have "unat (d ! a) mod 256 = map unat d ! a" if "a \<in> set (c_in c)" for a
  proof -
    have a: "a < length d"
      using wf_Combination_in_lt [OF assms(1) that] assms(2) by simp
    with fits_Tint_nth [OF assms(3) a] show ?thesis by simp
  qed
  then show ?thesis by (simp add: along_radices_def)
qed

lemma across_radices_fit:
  assumes "wf_Combination n k c" and "length d = n" and "fits_Tint d"
  shows "across_radices d c = map (\<lambda>a. map unat d ! a + 1) (c_out c)"
proof -
  have "(unat (d ! a) + 1) mod 256 = map unat d ! a + 1" if "a \<in> set (c_out c)" for a
  proof -
    have a: "a < length d"
      using wf_Combination_out_lt [OF assms(1) that] assms(2) by simp
    with fits_Tint_nth [OF assms(3) a] show ?thesis by simp
  qed
  then show ?thesis by (simp add: across_radices_def)
qed

lemma radices_fit_product:
  assumes "wf_Combination n k c" and "length d = n" and "fits_Tint d"
  shows "prod_list (along_radices d c @ across_radices d c) = spec_block_size (map unat d) c"
  by (simp add: along_radices_fit [OF assms] across_radices_fit [OF assms] spec_block_size_def)

lemma along_radices_nonzero:
  assumes "wf_Combination n k c" and "length d = n" and "fits_Tint d"
    and "block_product d c \<noteq> 0"
  shows "\<forall>r\<in>set (along_radices d c). r \<noteq> 0"
proof -
  have "unat (d ! a) \<noteq> 0" if "a \<in> set (c_in c)" for a
    using block_product_nonzero [OF assms(4)] that by (simp add: unat_eq_0)
  then show ?thesis
    using wf_Combination_in_lt [OF assms(1)] assms(2)
    by (simp add: along_radices_fit [OF assms(1,2,3)])
qed

lemma across_radices_nonzero:
  assumes "wf_Combination n k c" and "length d = n" and "fits_Tint d"
  shows "\<forall>r\<in>set (across_radices d c). r \<noteq> 0"
  by (simp add: across_radices_fit [OF assms])

lemma ctor_result:
  assumes "legal_parameters n k C" and "length d = n"
    and "Lexicographic_ctor n k C d = Some (Ok L)"
  shows "L = \<lparr>dimensions = d, block_sizes = map (block_product d) (combs C)\<rparr>"
  using assms(3) by (simp add: Lexicographic_ctor_value [OF assms(1,2)])

lemma legal_wf: "legal_parameters n k C \<Longrightarrow> wf_Combinations n k C"
  by (simp add: legal_parameters_def)

lemma legal_length: "legal_parameters n k C \<Longrightarrow> length (combs C) = binomial_nk n k"
  by (simp add: legal_parameters_def wf_Combinations_def)

section \<open>Evaluation on small instances\<close>

lemmas at_eval = Lexicographic_at_def for_uint_def along_body_def across_body_def rd_def
  Let_def upt_rec locate.simps

lemmas index_eval = Lexicographic_index_def for_uint_def prefix_body_def index_along_body_def
  index_across_body_def rd_def Let_def upt_rec

lemma legal_parameters_4_1: "legal_parameters 4 1 Combinations_4_1"
  by (simp add: legal_parameters_def wf_Combinations_def wf_Combination_def binomial_nk_def
      Combinations_4_1_def upt_rec numeral_eq_Suc)

lemma Lexicographic_ctor_4_1_example:
  "Lexicographic_ctor 4 1 Combinations_4_1 [254, 254, 254, 254] =
   Some (Ok \<lparr>dimensions = [254, 254, 254, 254],
             block_sizes = [4211669250, 4211669250, 4211669250, 4211669250]\<rparr>)"
  using Lexicographic_ctor_value [OF legal_parameters_4_1, of "[254, 254, 254, 254]"]
  by (simp add: block_product_def Combinations_4_1_def)

section \<open>Failure of \<^verbatim>\<open>operator[]\<close>\<close>

lemma Lexicographic_ctor_2_1_example:
  "Lexicographic_ctor 2 1 Combinations_2_1 [2, 3] =
   Some (Ok \<lparr>dimensions = [2, 3], block_sizes = [8, 9]\<rparr>)"
  using Lexicographic_ctor_value [OF legal_parameters_2_1, of "[2, 3]"]
  by (simp add: block_product_def Combinations_2_1_def)

text \<open>
  Claim C4, as amended. Let the constructor have returned \<open>L\<close> for the shape \<open>d\<close>
  and let \<^verbatim>\<open>size()\<close> be \<open>s\<close>. If the number of cells fits \<^verbatim>\<open>Bint\<close>, then for every
  \<open>index \<ge> s\<close> \<^verbatim>\<open>operator[]\<close> throws, and it throws the number of blocks. If every
  \<open>d[i] + 1\<close> fits \<^verbatim>\<open>Tint\<close>, then for every \<open>index < s\<close> it returns an element.
\<close>

theorem decode_failure:
  assumes "legal_parameters n k C" and "length d = n"
    and "Lexicographic_ctor n k C d = Some (Ok L)" and "Lexicographic_size L = Ok s"
  shows "(spec_size (map unat d) C < 2 ^ 32 \<and> s \<le> index \<longrightarrow>
            Lexicographic_at n k C L index = Fail (Thrown (binomial_nk n k))) \<and>
         (fits_Tint d \<and> index < s \<longrightarrow> (\<exists>e. Lexicographic_at n k C L index = Ok e))"
proof -
  let ?bs = "map (block_product d) (combs C)"
  have L: "L = \<lparr>dimensions = d, block_sizes = ?bs\<rparr>"
    using assms(1,2,3) by (rule ctor_result)
  have wf: "wf_Combinations n k C" and len: "length (combs C) = binomial_nk n k"
    using assms(1) by (simp_all add: legal_wf legal_length)
  have s: "s = sum_list ?bs"
    using assms(4) by (simp add: L Lexicographic_size_value)
  obtain b idx where loc: "locate ?bs 0 index = (b, idx)"
    by (cases "locate ?bs 0 index")
  have thrown: "Lexicographic_at n k C L index = Fail (Thrown (binomial_nk n k))"
    if fit: "spec_size (map unat d) C < 2 ^ 32" and ge: "s \<le> index"
  proof -
    have "sum_list (map unat ?bs) = spec_size (map unat d) C"
      by (simp only: sum_unat_block_sizes [OF wf assms(2) fit] spec_size_def)
    moreover have "unat s = spec_size (map unat d) C"
      using fit by (simp add: s sum_block_sizes_of_nat [OF wf assms(2)] unat_of_nat)
    ultimately have "sum_list (map unat (drop 0 ?bs)) \<le> unat index"
      using ge by (simp add: word_le_nat_alt)
    then have "b = length ?bs"
      using locate_end [OF loc] by simp
    then show ?thesis
      using Lexicographic_at_thrown [of L index b idx n k C] loc len by (simp add: L)
  qed
  have found: "\<exists>e. Lexicographic_at n k C L index = Ok e"
    if fit: "fits_Tint d" and lt: "index < s"
  proof -
    have "unat index < sum_list (map unat (drop 0 ?bs))"
      using lt unat_sum_list_le [of ?bs] by (simp add: s word_less_nat_alt)
    then have "b \<noteq> length ?bs"
      using locate_end [OF loc] by simp
    moreover have "b \<le> length ?bs"
      using locate_bound [OF loc] by simp
    ultimately have b: "b < binomial_nk n k"
      using len by simp
    then have "idx < ?bs ! b"
      using locate_less [OF loc] len by simp
    then have nz: "block_product d (combs C ! b) \<noteq> 0"
      using b len by (auto simp add: word_less_nat_alt)
    have c: "wf_Combination n k (combs C ! b)"
      using wf b by (rule wf_Combinations_nth)
    show ?thesis
      using Lexicographic_at_value [of n k C L index b idx] wf assms(2) len loc b
        along_radices_nonzero [OF c assms(2) fit nz] across_radices_nonzero [OF c assms(2) fit]
      by (simp add: L)
  qed
  from thrown found show ?thesis by blast
qed

theorem decode_failure_witness:
  "Lexicographic_at 2 1 Combinations_2_1 \<lparr>dimensions = [2, 3], block_sizes = [8, 9]\<rparr> 17
     = Fail (Thrown (binomial_nk 2 1)) \<and>
   (\<exists>e. Lexicographic_at 2 1 Combinations_2_1 \<lparr>dimensions = [2, 3], block_sizes = [8, 9]\<rparr> 16
     = Ok e)"
proof -
  have h2: "length [2, 3 :: Sint] = 2" by simp
  have h4: "Lexicographic_size \<lparr>dimensions = [2, 3], block_sizes = [8, 9]\<rparr> = Ok 17"
    by (simp add: Lexicographic_size_value)
  have h5: "spec_size (map unat [2, 3 :: Sint]) Combinations_2_1 < 2 ^ 32 \<and> (17 :: Bint) \<le> 17"
    by (simp add: spec_size_def spec_block_size_def Combinations_2_1_def)
  have h6: "fits_Tint [2, 3] \<and> (16 :: Bint) < 17"
    by (simp add: fits_Tint_def)
  show ?thesis
    using decode_failure [OF legal_parameters_2_1 h2 Lexicographic_ctor_2_1_example h4, of 17]
      decode_failure [OF legal_parameters_2_1 h2 Lexicographic_ctor_2_1_example h4, of 16] h5 h6
    by blast
qed

text \<open>
  When the sum of the block sizes wraps, an index at or above \<^verbatim>\<open>size()\<close> can still be
  below the size of a block: \<open>n = 4\<close>, \<open>k = 1\<close>, \<open>d = (254, 254, 254, 254)\<close> has
  four blocks of \<open>254 * 255 ^ 3\<close> cells, \<^verbatim>\<open>size()\<close> is their sum modulo \<open>2 ^ 32\<close>,
  and the index 4000000000 is not below it, yet \<^verbatim>\<open>operator[]\<close> returns an element.
\<close>

theorem decode_beyond_wrapped_size_example:
  "legal_parameters 4 1 Combinations_4_1 \<and> fits_Tint [254, 254, 254, 254] \<and>
   Lexicographic_ctor 4 1 Combinations_4_1 [254, 254, 254, 254] =
     Some (Ok \<lparr>dimensions = [254, 254, 254, 254],
               block_sizes = [4211669250, 4211669250, 4211669250, 4211669250]\<rparr>) \<and>
   Lexicographic_size
     \<lparr>dimensions = [254, 254, 254, 254],
       block_sizes = [4211669250, 4211669250, 4211669250, 4211669250]\<rparr> = Ok 3961775112 \<and>
   (3961775112 :: Bint) \<le> 4000000000 \<and>
   Lexicographic_at 4 1 Combinations_4_1
     \<lparr>dimensions = [254, 254, 254, 254],
       block_sizes = [4211669250, 4211669250, 4211669250, 4211669250]\<rparr> 4000000000 =
     Ok \<lparr>directions = \<lparr>c_in = [0], c_out = [1, 2, 3]\<rparr>, position_along = [126],
         position_across = [251, 46, 242]\<rparr>"
proof -
  have "Lexicographic_size
     \<lparr>dimensions = [254, 254, 254, 254],
       block_sizes = [4211669250, 4211669250, 4211669250, 4211669250]\<rparr> = Ok 3961775112"
    by (simp add: Lexicographic_size_value)
  moreover have "Lexicographic_at 4 1 Combinations_4_1
     \<lparr>dimensions = [254, 254, 254, 254],
       block_sizes = [4211669250, 4211669250, 4211669250, 4211669250]\<rparr> 4000000000 =
     Ok \<lparr>directions = \<lparr>c_in = [0], c_out = [1, 2, 3]\<rparr>, position_along = [126],
         position_across = [251, 46, 242]\<rparr>"
    by (simp add: at_eval Combinations_4_1_def numeral_3_eq_3)
  moreover have "fits_Tint [254, 254, 254, 254]"
    by (simp add: fits_Tint_def)
  ultimately show ?thesis
    using legal_parameters_4_1 Lexicographic_ctor_4_1_example by simp
qed

section \<open>The loops of \<^verbatim>\<open>index\<close>\<close>

lemma mixed_radix_snoc:
  "length ps = length rs \<Longrightarrow>
   mixed_radix (rs @ [r]) (ps @ [p]) = mixed_radix rs ps + prod_list rs * p"
proof (induction rs arbitrary: ps)
  case Nil
  then show ?case by simp
next
  case (Cons a rs)
  then obtain q qs where ps: "ps = q # qs" and "length qs = length rs"
    by (cases ps) auto
  with Cons.IH [of qs] show ?case
    by (simp add: algebra_simps)
qed

lemma mixed_radix_append:
  "length ps = length rs \<Longrightarrow>
   mixed_radix (rs @ ss) (ps @ qs) = mixed_radix rs ps + prod_list rs * mixed_radix ss qs"
proof (induction rs arbitrary: ps)
  case Nil
  then show ?case by simp
next
  case (Cons a rs)
  then obtain p ps' where ps: "ps = p # ps'" and "length ps' = length rs"
    by (cases ps) auto
  with Cons.IH [of ps'] show ?case
    by (simp add: algebra_simps)
qed

lemma encode_loop:
  assumes body: "\<And>i res fac. i < length rs \<Longrightarrow>
      body i (res, fac) = Ok (res + of_nat (ps ! i) * fac, fac * of_nat (rs ! i))"
    and len: "length ps = length rs"
  shows "j \<le> length rs \<Longrightarrow>
         forM body [0..<j] (res :: Bint, fac :: Bint) =
           Ok (res + fac * of_nat (mixed_radix (take j rs) (take j ps)),
               fac * of_nat (prod_list (take j rs)))"
proof (induction j)
  case 0
  then show ?case by simp
next
  case (Suc j)
  then have j: "j < length rs" by simp
  have tr: "take (Suc j) rs = take j rs @ [rs ! j]"
    using j by (simp add: take_Suc_conv_app_nth)
  have tp: "take (Suc j) ps = take j ps @ [ps ! j]"
    using j len by (simp add: take_Suc_conv_app_nth)
  have lt: "length (take j ps) = length (take j rs)"
    using len by simp
  have "forM body [0..<j] (res, fac) =
        Ok (res + fac * of_nat (mixed_radix (take j rs) (take j ps)),
            fac * of_nat (prod_list (take j rs)))"
    using Suc by simp
  then show ?case
    by (simp add: forM_append body [OF j] tr tp mixed_radix_snoc [OF lt] algebra_simps)
qed

lemma prefix_loop:
  "m \<le> length bs \<Longrightarrow> forM (prefix_body bs) [0..<m] r = Ok (r + sum_list (take m bs))"
proof (induction m)
  case 0
  then show ?case by simp
next
  case (Suc m)
  then show ?case
    by (simp add: forM_append prefix_body_def rd_def take_Suc_conv_app_nth add.assoc)
qed

lemma ucast_Sint_Bint: "(ucast (x :: Sint) :: Bint) = of_nat (unat x)"
  by simp

lemma index_along_loop:
  assumes "wf_Combination n k (directions e)" and "length d = n"
    and "length (position_along e) = k"
  shows "for_uint k (index_along_body d e) (res, fac) =
         Ok (res + fac * of_nat (mixed_radix (along_radices d (directions e))
                                   (map unat (position_along e))),
             fac * of_nat (prod_list (along_radices d (directions e))))"
proof -
  let ?rs = "along_radices d (directions e)"
  let ?ps = "map unat (position_along e)"
  have len: "length ?rs = k"
    using assms(1) by (simp add: along_radices_def wf_Combination_def)
  have "forM (index_along_body d e) [0..<k] (res, fac) =
        Ok (res + fac * of_nat (mixed_radix (take k ?rs) (take k ?ps)),
            fac * of_nat (prod_list (take k ?rs)))"
  proof (rule encode_loop)
    fix i and res fac :: Bint
    assume i: "i < length ?rs"
    then have ik: "i < length (c_in (directions e))" by (simp add: along_radices_def)
    then have a: "c_in (directions e) ! i < length d"
      using wf_Combination_in_lt [OF assms(1), of "c_in (directions e) ! i"] assms(2) by simp
    have ip: "i < length (position_along e)"
      using i len assms(3) by simp
    show "index_along_body d e i (res, fac) =
          Ok (res + of_nat (?ps ! i) * fac, fac * of_nat (?rs ! i))"
      using ik a ip
      by (simp add: index_along_body_def rd_def Let_def Tint_to_Bint along_radices_def)
  qed (simp_all add: len assms(3))
  then show ?thesis
    by (simp add: for_uint_def len assms(3))
qed

lemma index_across_loop:
  assumes "wf_Combination n k (directions e)" and "length d = n"
    and "length (position_across e) = n - k"
  shows "for_uint (n - k) (index_across_body d e) (res, fac) =
         Ok (res + fac * of_nat (mixed_radix (across_radices d (directions e))
                                   (map unat (position_across e))),
             fac * of_nat (prod_list (across_radices d (directions e))))"
proof -
  let ?rs = "across_radices d (directions e)"
  let ?ps = "map unat (position_across e)"
  have len: "length ?rs = n - k"
    using assms(1) by (simp add: across_radices_def wf_Combination_def)
  have "forM (index_across_body d e) [0..<n - k] (res, fac) =
        Ok (res + fac * of_nat (mixed_radix (take (n - k) ?rs) (take (n - k) ?ps)),
            fac * of_nat (prod_list (take (n - k) ?rs)))"
  proof (rule encode_loop)
    fix i and res fac :: Bint
    assume i: "i < length ?rs"
    then have ik: "i < length (c_out (directions e))" by (simp add: across_radices_def)
    then have a: "c_out (directions e) ! i < length d"
      using wf_Combination_out_lt [OF assms(1), of "c_out (directions e) ! i"] assms(2) by simp
    have ip: "i < length (position_across e)"
      using i len assms(3) by simp
    have "(ucast (ucast (1 + (ucast (d ! (c_out (directions e) ! i)) :: Bint)) :: Tint) :: Bint) =
          of_nat ((unat (d ! (c_out (directions e) ! i)) + 1) mod 256)"
      by (simp only: Tint_to_Bint unat_succ_Sint)
    then show "index_across_body d e i (res, fac) =
          Ok (res + of_nat (?ps ! i) * fac, fac * of_nat (?rs ! i))"
      using ik a ip
      by (simp add: index_across_body_def rd_def Let_def across_radices_def)
  qed (simp_all add: len assms(3))
  then show ?thesis
    by (simp add: for_uint_def len assms(3))
qed

lemma Lexicographic_index_value:
  assumes "wf_Combination n k (directions e)" and "length (dimensions L) = n"
    and "length (position_along e) = k" and "length (position_across e) = n - k"
    and "cindex C (directions e) \<le> length (block_sizes L)"
    and "length (block_sizes L) < 2 ^ 32"
  shows "Lexicographic_index n k C L e =
         Ok (sum_list (take (cindex C (directions e)) (block_sizes L)) +
             of_nat (mixed_radix
               (along_radices (dimensions L) (directions e) @
                across_radices (dimensions L) (directions e))
               (map unat (position_along e @ position_across e))))"
proof -
  have ci: "unat (of_nat (cindex C (directions e)) :: Bint) = cindex C (directions e)"
    using assms(5,6) by (simp add: unat_of_nat)
  have la: "length (map unat (position_along e)) = length (along_radices (dimensions L) (directions e))"
    using assms(1,3) by (simp add: along_radices_def wf_Combination_def)
  show ?thesis
    using assms(5)
    by (simp add: Lexicographic_index_def Let_def ci for_uint_def prefix_loop
        index_along_loop [OF assms(1,2,3), unfolded for_uint_def]
        index_across_loop [OF assms(1,2,4), unfolded for_uint_def]
        mixed_radix_append [OF la] algebra_simps)
qed

lemma cindex_member:
  assumes "wf_Combinations n k C" and "c \<in> set (combs C)"
  shows "cindex C c < binomial_nk n k" and "combs C ! cindex C c = c"
proof -
  obtain b where b: "b < length (combs C)" and c: "combs C ! b = c"
    using assms(2) by (auto simp add: in_set_conv_nth)
  have "cindex C (combs C ! b) = b"
    using assms(1) b by (simp add: wf_Combinations_def list_all_iff)
  with b c assms(1) show "cindex C c < binomial_nk n k" and "combs C ! cindex C c = c"
    by (simp_all add: wf_Combinations_def)
qed

lemma index_after_ctor:
  assumes "legal_parameters n k C" and "length d = n"
    and "Lexicographic_ctor n k C d = Some (Ok L)"
    and "directions e \<in> set (combs C)"
    and "length (position_along e) = k" and "length (position_across e) = n - k"
  shows "Lexicographic_index n k C L e =
         Ok (sum_list (take (cindex C (directions e)) (map (block_product d) (combs C))) +
             of_nat (mixed_radix
               (along_radices d (directions e) @ across_radices d (directions e))
               (map unat (position_along e @ position_across e))))"
proof -
  have L: "L = \<lparr>dimensions = d, block_sizes = map (block_product d) (combs C)\<rparr>"
    using assms(1,2,3) by (rule ctor_result)
  have wf: "wf_Combinations n k C" and len: "length (combs C) = binomial_nk n k"
    using assms(1) by (simp_all add: legal_wf legal_length)
  have c: "wf_Combination n k (directions e)"
    using wf assms(4) by (rule wf_Combinations_mem)
  have ci: "cindex C (directions e) \<le> length (block_sizes L)"
    using cindex_member(1) [OF wf assms(4)] len by (simp add: L)
  have small: "length (block_sizes L) < 2 ^ 32"
    using assms(1) len by (simp add: L legal_parameters_def)
  show ?thesis
    using Lexicographic_index_value [OF c _ assms(5,6) ci small] assms(2)
    by (simp add: L)
qed

lemma mixed_radix_incr:
  "rs \<noteq> [] \<Longrightarrow> ps \<noteq> [] \<Longrightarrow> mixed_radix rs (ps[0 := ps ! 0 + 1]) = mixed_radix rs ps + 1"
  by (cases rs; cases ps) simp_all

lemma Lexicographic_ctor_1_1_example:
  "Lexicographic_ctor 1 1 Combinations_1_1 [3] =
   Some (Ok \<lparr>dimensions = [3], block_sizes = [3]\<rparr>)"
  using Lexicographic_ctor_value [OF legal_parameters_1_1, of "[3]"]
  by (simp add: block_product_def Combinations_1_1_def)

section \<open>Malformed elements\<close>

text \<open>
  Claim C5, as amended. \<^verbatim>\<open>index\<close> checks no digit against its radix. For every element
  whose directions are one of the combinations, whatever its positions along and across
  are, it returns a number and signals no failure: the sum of the sizes of the blocks
  before its own plus the mixed-radix value of the positions as they are.
\<close>

theorem index_accepts_any_digits:
  assumes "legal_parameters n k C" and "length d = n"
    and "Lexicographic_ctor n k C d = Some (Ok L)"
    and "directions e \<in> set (combs C)"
    and "length (position_along e) = k" and "length (position_across e) = n - k"
  shows "\<exists>r. Lexicographic_index n k C L e = Ok r \<and>
             r = sum_list (take (cindex C (directions e)) (block_sizes L)) +
                 of_nat (mixed_radix
                   (along_radices d (directions e) @ across_radices d (directions e))
                   (map unat (position_along e @ position_across e)))"
  using index_after_ctor [OF assms] ctor_result [OF assms(1,2,3)] by simp

theorem index_accepts_any_digits_witness:
  "\<exists>r. Lexicographic_index 2 1 Combinations_2_1 \<lparr>dimensions = [2, 3], block_sizes = [8, 9]\<rparr>
          \<lparr>directions = \<lparr>c_in = [0], c_out = [1]\<rparr>, position_along = [7], position_across = [9]\<rparr>
        = Ok r \<and> r = 25"
proof -
  let ?e = "\<lparr>directions = \<lparr>c_in = [0], c_out = [1]\<rparr>, position_along = [7 :: Sint],
             position_across = [9 :: Sint]\<rparr>"
  have h2: "length [2, 3 :: Sint] = 2" by simp
  have h4: "directions ?e \<in> set (combs Combinations_2_1)"
    by (simp add: Combinations_2_1_def)
  have h5: "length (position_along ?e) = 1" and h6: "length (position_across ?e) = 2 - 1"
    by simp_all
  show ?thesis
    using index_accepts_any_digits [OF legal_parameters_2_1 h2 Lexicographic_ctor_2_1_example
        h4 h5 h6]
    by (simp add: along_radices_def across_radices_def Combinations_2_1_def)
qed

text \<open>
  For \<open>n = k = 1\<close> and \<open>d = (3)\<close> the element with \<open>position_along = (5)\<close> is not
  well-formed, and \<^verbatim>\<open>index\<close> returns 5, which is not below \<^verbatim>\<open>size() = 3\<close>.
\<close>

theorem index_of_malformed_element_example:
  "\<not> well_formed_Element 1 1 Combinations_1_1 [3]
       \<lparr>directions = \<lparr>c_in = [0], c_out = []\<rparr>, position_along = [5], position_across = []\<rparr> \<and>
   Lexicographic_ctor 1 1 Combinations_1_1 [3] =
     Some (Ok \<lparr>dimensions = [3], block_sizes = [3]\<rparr>) \<and>
   Lexicographic_size \<lparr>dimensions = [3], block_sizes = [3]\<rparr> = Ok 3 \<and>
   Lexicographic_index 1 1 Combinations_1_1 \<lparr>dimensions = [3], block_sizes = [3]\<rparr>
       \<lparr>directions = \<lparr>c_in = [0], c_out = []\<rparr>, position_along = [5], position_across = []\<rparr>
     = Ok 5"
proof -
  have "\<not> well_formed_Element 1 1 Combinations_1_1 [3]
       \<lparr>directions = \<lparr>c_in = [0], c_out = []\<rparr>, position_along = [5], position_across = []\<rparr>"
    by (simp add: well_formed_Element_def Combinations_1_1_def)
  moreover have "Lexicographic_index 1 1 Combinations_1_1 \<lparr>dimensions = [3], block_sizes = [3]\<rparr>
       \<lparr>directions = \<lparr>c_in = [0], c_out = []\<rparr>, position_along = [5], position_across = []\<rparr>
     = Ok 5"
    by (simp add: Lexicographic_index_def for_uint_def prefix_body_def index_along_body_def
        index_across_body_def rd_def Let_def Combinations_1_1_def)
  moreover have "Lexicographic_size \<lparr>dimensions = [3], block_sizes = [3]\<rparr> = Ok 3"
    by (simp add: Lexicographic_size_value)
  ultimately show ?thesis
    using Lexicographic_ctor_1_1_example by simp
qed

section \<open>Mixed-radix arithmetic and the value of \<^verbatim>\<open>index\<close>\<close>

lemma prod_spec_radices: "prod_list (spec_radices d c) = spec_block_size d c"
  by (simp add: spec_radices_def spec_block_size_def)

lemma mixed_radix_digits: "mixed_radix rs (digits rs x) = x mod prod_list rs"
proof (induction rs arbitrary: x)
  case Nil
  then show ?case by simp
next
  case (Cons r rs)
  then show ?case
    by (simp add: mod_mult2_eq add.commute)
qed

lemma digits_mixed_radix: "list_all2 (<) ps rs \<Longrightarrow> digits rs (mixed_radix rs ps) = ps"
proof (induction ps rs rule: list_all2_induct)
  case Nil
  then show ?case by simp
next
  case (Cons p ps r rs)
  then show ?case by simp
qed

lemma mixed_radix_bound: "list_all2 (<) ps rs \<Longrightarrow> mixed_radix rs ps < prod_list rs"
proof (induction ps rs rule: list_all2_induct)
  case Nil
  then show ?case by simp
next
  case (Cons p ps r rs)
  have "p + r * mixed_radix rs ps < r + r * mixed_radix rs ps"
    using Cons.hyps(1) by simp
  also have "\<dots> = r * Suc (mixed_radix rs ps)" by simp
  also have "\<dots> \<le> r * prod_list rs"
    using Cons.IH by (intro mult_le_mono2) simp
  finally show ?case by simp
qed

lemma mixed_radix_mono:
  "list_all2 (\<le>) ts rs \<Longrightarrow> mixed_radix ts ps \<le> mixed_radix rs ps"
proof (induction ts rs arbitrary: ps rule: list_all2_induct)
  case Nil
  then show ?case by simp
next
  case (Cons t ts r rs)
  show ?case
  proof (cases ps)
    case Nil
    then show ?thesis by simp
  next
    case (Cons p ps')
    have "t * mixed_radix ts ps' \<le> r * mixed_radix rs ps'"
      using Cons.hyps(1) Cons.IH [of ps'] by (rule mult_le_mono)
    then show ?thesis using Cons by simp
  qed
qed

lemma radices_le_spec:
  assumes "wf_Combination n k c" and "length d = n"
  shows "list_all2 (\<le>) (along_radices d c @ across_radices d c) (spec_radices (map unat d) c)"
proof -
  have "list_all2 (\<le>) (along_radices d c) (map (\<lambda>a. map unat d ! a) (c_in c))"
    using wf_Combination_in_lt [OF assms(1)] assms(2)
    by (simp add: along_radices_def list_all2_conv_all_nth)
  moreover have "list_all2 (\<le>) (across_radices d c) (map (\<lambda>a. map unat d ! a + 1) (c_out c))"
    using wf_Combination_out_lt [OF assms(1)] assms(2)
    by (simp add: across_radices_def list_all2_conv_all_nth)
  ultimately show ?thesis
    unfolding spec_radices_def by (rule list_all2_appendI)
qed

lemma well_formed_digits:
  assumes "wf_Combinations n k C" and "length d = n" and "well_formed_Element n k C d e"
  shows "list_all2 (<) (map unat (position_along e @ position_across e))
           (spec_radices (map unat d) (directions e))"
proof -
  have c: "wf_Combination n k (directions e)"
    using assms(1,3) by (simp add: well_formed_Element_def wf_Combinations_mem)
  have al: "list_all2 (\<lambda>p a. unat p < unat (d ! a)) (position_along e) (c_in (directions e))"
    and ac: "list_all2 (\<lambda>p a. unat p < unat (d ! a) + 1) (position_across e) (c_out (directions e))"
    using assms(3) by (simp_all add: well_formed_Element_def)
  have "list_all2 (<) (map unat (position_along e)) (map (\<lambda>a. map unat d ! a) (c_in (directions e)))"
    using al wf_Combination_in_lt [OF c] assms(2)
    by (simp add: list_all2_conv_all_nth)
  moreover have "list_all2 (<) (map unat (position_across e))
      (map (\<lambda>a. map unat d ! a + 1) (c_out (directions e)))"
    using ac wf_Combination_out_lt [OF c] assms(2)
    by (simp add: list_all2_conv_all_nth)
  ultimately show ?thesis
    unfolding spec_radices_def map_append by (rule list_all2_appendI)
qed

lemma sum_list_take_Suc:
  "i < length xs \<Longrightarrow> sum_list (take (Suc i) xs) = sum_list (take i xs) + (xs ! i :: nat)"
  by (simp add: take_Suc_conv_app_nth)

lemma sum_list_take_mono: "i \<le> j \<Longrightarrow> sum_list (take i xs) \<le> (sum_list (take j xs) :: nat)"
proof -
  assume "i \<le> j"
  then have "take j xs = take i xs @ take (j - i) (drop i xs)"
    by (metis le_add_diff_inverse take_add)
  then show ?thesis by simp
qed

lemma sum_list_take_le: "sum_list (take i xs) \<le> (sum_list xs :: nat)"
  using sum_list_take_mono [of i "max i (length xs)" xs] by simp

lemma prefix_of_nat:
  assumes "wf_Combinations n k C" and "length d = n"
  shows "sum_list (take m (map (block_product d) (combs C))) =
         of_nat (sum_list (take m (map (spec_block_size (map unat d)) (combs C))))"
  by (simp add: block_sizes_of_nat [OF assms] of_nat_sum_list take_map comp_def)

lemma index_of_nat:
  assumes "legal_parameters n k C" and "length d = n"
    and "Lexicographic_ctor n k C d = Some (Ok L)"
    and "well_formed_Element n k C d e"
  shows "Lexicographic_index n k C L e = Ok (of_nat (index_nat d C e))"
proof -
  have w: "directions e \<in> set (combs C)" "length (position_along e) = k"
      "length (position_across e) = n - k"
    using assms(4) by (simp_all add: well_formed_Element_def)
  show ?thesis
    by (simp add: index_after_ctor [OF assms(1,2,3) w] index_nat_def
        prefix_of_nat [OF legal_wf [OF assms(1)] assms(2)])
qed

lemma index_nat_bounds:
  assumes "legal_parameters n k C" and "length d = n"
    and "well_formed_Element n k C d e"
  shows "sum_list (take (cindex C (directions e)) (map (spec_block_size (map unat d)) (combs C)))
           \<le> index_nat d C e"
    and "index_nat d C e <
         sum_list (take (Suc (cindex C (directions e)))
           (map (spec_block_size (map unat d)) (combs C)))"
proof -
  let ?c = "directions e"
  let ?Bs = "map (spec_block_size (map unat d)) (combs C)"
  let ?ps = "map unat (position_along e @ position_across e)"
  have wf: "wf_Combinations n k C" and len: "length (combs C) = binomial_nk n k"
    using assms(1) by (simp_all add: legal_wf legal_length)
  have mem: "?c \<in> set (combs C)"
    using assms(3) by (simp add: well_formed_Element_def)
  have ci: "cindex C ?c < length ?Bs" and at: "combs C ! cindex C ?c = ?c"
    using cindex_member [OF wf mem] len by simp_all
  have c: "wf_Combination n k ?c"
    using wf mem by (rule wf_Combinations_mem)
  show "sum_list (take (cindex C ?c) ?Bs) \<le> index_nat d C e"
    by (simp add: index_nat_def)
  have "mixed_radix (along_radices d ?c @ across_radices d ?c) ?ps
        \<le> mixed_radix (spec_radices (map unat d) ?c) ?ps"
    using radices_le_spec [OF c assms(2)] by (rule mixed_radix_mono)
  also have "\<dots> < prod_list (spec_radices (map unat d) ?c)"
    using well_formed_digits [OF wf assms(2,3)] by (rule mixed_radix_bound)
  also have "\<dots> = ?Bs ! cindex C ?c"
    using ci at by (simp add: prod_spec_radices)
  finally show "index_nat d C e < sum_list (take (Suc (cindex C ?c)) ?Bs)"
    by (simp add: index_nat_def sum_list_take_Suc [OF ci])
qed

section \<open>Order of the digits within a block\<close>

text \<open>
  Claim C6. Let the constructor have returned \<open>L\<close>, let \<open>k \<ge> 1\<close>, and let \<open>e1\<close> and
  \<open>e2\<close> be well-formed elements with the same directions and the same positions
  across, whose positions along differ only in that
  \<open>e2.position_along[0] = e1.position_along[0] + 1\<close>. Then \<^verbatim>\<open>index(e2)\<close> is
  \<^verbatim>\<open>index(e1) + 1\<close>, in the type \<^verbatim>\<open>Bint\<close> that \<^verbatim>\<open>index\<close> returns; and when the
  number of cells fits \<^verbatim>\<open>Bint\<close>, that addition does not wrap.
\<close>

theorem intra_block_increment:
  assumes "legal_parameters n k C" and "length d = n"
    and "Lexicographic_ctor n k C d = Some (Ok L)"
    and "well_formed_Element n k C d e1" and "well_formed_Element n k C d e2"
    and "1 \<le> k"
    and "directions e2 = directions e1" and "position_across e2 = position_across e1"
    and "position_along e2 = (position_along e1)[0 := position_along e1 ! 0 + 1]"
  shows "\<exists>i. Lexicographic_index n k C L e1 = Ok i \<and>
             Lexicographic_index n k C L e2 = Ok (i + 1) \<and>
             (spec_size (map unat d) C < 2 ^ 32 \<longrightarrow> unat (i + 1) = unat i + 1)"
proof -
  let ?c = "directions e1"
  let ?rs = "along_radices d ?c @ across_radices d ?c"
  let ?p1 = "map unat (position_along e1 @ position_across e1)"
  let ?p2 = "map unat (position_along e2 @ position_across e2)"
  have k: "length (position_along e1) = k"
    and lt: "list_all2 (\<lambda>p a. unat p < unat (d ! a)) (position_along e1) (c_in ?c)"
    using assms(4) by (simp_all add: well_formed_Element_def)
  have i1: "Lexicographic_index n k C L e1 = Ok (of_nat (index_nat d C e1))"
    using assms(1,2,3,4) by (rule index_of_nat)
  have i2: "Lexicographic_index n k C L e2 = Ok (of_nat (index_nat d C e2))"
    using assms(1,2,3,5) by (rule index_of_nat)
  have ne: "position_along e1 \<noteq> []"
    using k assms(6) by auto
  have "c_in ?c \<noteq> []"
    using lt ne by (auto simp add: list_all2_conv_all_nth)
  then have rs: "?rs \<noteq> []"
    by (simp add: along_radices_def)
  have "0 < length (position_along e1)"
    using ne by simp
  then have "unat (position_along e1 ! 0) < unat (d ! (c_in ?c ! 0))"
    using lt by (auto simp add: list_all2_conv_all_nth)
  moreover have "unat (d ! (c_in ?c ! 0)) < 2 ^ 16"
    using unsigned_less [of "d ! (c_in ?c ! 0)"] by simp
  ultimately have "Suc (unat (position_along e1 ! 0)) < 65536"
    by simp
  then have "unat (position_along e1 ! 0 + 1) = unat (position_along e1 ! 0) + 1"
    by (simp add: unat_word_ariths)
  then have "?p2 = ?p1[0 := ?p1 ! 0 + 1]"
    using ne by (simp add: assms(8,9) list_update_append map_update nth_append)
  then have "mixed_radix ?rs ?p2 = mixed_radix ?rs ?p1 + 1"
    using mixed_radix_incr [OF rs, of ?p1] ne by simp
  then have step: "index_nat d C e2 = index_nat d C e1 + 1"
    by (simp add: index_nat_def assms(7))
  have "unat (of_nat (index_nat d C e1) + 1 :: Bint) = unat (of_nat (index_nat d C e1) :: Bint) + 1"
    if fit: "spec_size (map unat d) C < 2 ^ 32"
  proof -
    have "index_nat d C e2 <
          sum_list (take (Suc (cindex C (directions e2)))
            (map (spec_block_size (map unat d)) (combs C)))"
      using assms(1,2,5) by (rule index_nat_bounds(2))
    also have "\<dots> \<le> spec_size (map unat d) C"
      unfolding spec_size_def by (rule sum_list_take_le)
    finally have "index_nat d C e1 + 1 < 2 ^ 32"
      using fit step by simp
    then show ?thesis
      by (simp add: unat_word_ariths unat_of_nat)
  qed
  then show ?thesis
    using i1 i2 step by simp
qed

theorem intra_block_increment_witness:
  "Lexicographic_index 2 1 Combinations_2_1 \<lparr>dimensions = [2, 3], block_sizes = [8, 9]\<rparr>
     \<lparr>directions = \<lparr>c_in = [1], c_out = [0]\<rparr>, position_along = [1], position_across = [2]\<rparr>
     = Ok 15 \<and>
   Lexicographic_index 2 1 Combinations_2_1 \<lparr>dimensions = [2, 3], block_sizes = [8, 9]\<rparr>
     \<lparr>directions = \<lparr>c_in = [1], c_out = [0]\<rparr>, position_along = [2], position_across = [2]\<rparr>
     = Ok 16 \<and>
   unat (15 + 1 :: Bint) = unat (15 :: Bint) + 1"
proof -
  let ?L = "\<lparr>dimensions = [2, 3], block_sizes = [8, 9]\<rparr>"
  let ?e1 = "\<lparr>directions = \<lparr>c_in = [1], c_out = [0]\<rparr>, position_along = [1 :: Sint],
              position_across = [2 :: Sint]\<rparr>"
  let ?e2 = "\<lparr>directions = \<lparr>c_in = [1], c_out = [0]\<rparr>, position_along = [2 :: Sint],
              position_across = [2 :: Sint]\<rparr>"
  have h2: "length [2, 3 :: Sint] = 2" by simp
  have h3: "spec_size (map unat [2, 3 :: Sint]) Combinations_2_1 < 2 ^ 32"
    by (simp add: spec_size_def spec_block_size_def Combinations_2_1_def)
  have w1: "well_formed_Element 2 1 Combinations_2_1 [2, 3] ?e1"
    by (simp add: well_formed_Element_def Combinations_2_1_def)
  have w2: "well_formed_Element 2 1 Combinations_2_1 [2, 3] ?e2"
    by (simp add: well_formed_Element_def Combinations_2_1_def)
  have k: "(1 :: nat) \<le> 1" by simp
  have "\<exists>i. Lexicographic_index 2 1 Combinations_2_1 ?L ?e1 = Ok i \<and>
            Lexicographic_index 2 1 Combinations_2_1 ?L ?e2 = Ok (i + 1) \<and>
            (spec_size (map unat [2, 3 :: Sint]) Combinations_2_1 < 2 ^ 32 \<longrightarrow>
               unat (i + 1) = unat i + 1)"
    by (rule intra_block_increment [OF legal_parameters_2_1 h2 Lexicographic_ctor_2_1_example w1 w2 k])
      simp_all
  moreover have "Lexicographic_index 2 1 Combinations_2_1 ?L ?e1 = Ok 15"
    by (simp add: index_eval Combinations_2_1_def)
  ultimately show ?thesis
    using h3 by auto
qed

section \<open>Order of the blocks\<close>

text \<open>
  Claim C7, as amended. Let the number of cells of the shape \<open>d\<close> fit \<^verbatim>\<open>Bint\<close> and
  let the constructor have returned \<open>L\<close>. For well-formed elements \<open>e1\<close> and \<open>e2\<close>,
  if the combination index of \<open>e1.directions\<close> is below that of \<open>e2.directions\<close>,
  then \<^verbatim>\<open>index(e1) < index(e2)\<close>.
\<close>

theorem block_ordering:
  assumes "legal_parameters n k C" and "length d = n"
    and "spec_size (map unat d) C < 2 ^ 32"
    and "Lexicographic_ctor n k C d = Some (Ok L)"
    and "well_formed_Element n k C d e1" and "well_formed_Element n k C d e2"
    and "cindex C (directions e1) < cindex C (directions e2)"
  shows "\<exists>i1 i2. Lexicographic_index n k C L e1 = Ok i1 \<and>
                 Lexicographic_index n k C L e2 = Ok i2 \<and> i1 < i2"
proof -
  let ?Bs = "map (spec_block_size (map unat d)) (combs C)"
  have "index_nat d C e1 < sum_list (take (Suc (cindex C (directions e1))) ?Bs)"
    using assms(1,2,5) by (rule index_nat_bounds(2))
  also have "\<dots> \<le> sum_list (take (cindex C (directions e2)) ?Bs)"
    using assms(7) by (intro sum_list_take_mono) simp
  also have "\<dots> \<le> index_nat d C e2"
    using assms(1,2,6) by (rule index_nat_bounds(1))
  finally have lt: "index_nat d C e1 < index_nat d C e2" .
  have "index_nat d C e2 < sum_list (take (Suc (cindex C (directions e2))) ?Bs)"
    using assms(1,2,6) by (rule index_nat_bounds(2))
  also have "\<dots> \<le> spec_size (map unat d) C"
    unfolding spec_size_def by (rule sum_list_take_le)
  finally have b2: "index_nat d C e2 < 2 ^ 32"
    using assms(3) by simp
  with lt have b1: "index_nat d C e1 < 2 ^ 32" by simp
  have "(of_nat (index_nat d C e1) :: Bint) < of_nat (index_nat d C e2)"
    using lt b1 b2 by (simp add: word_less_nat_alt unat_of_nat)
  then show ?thesis
    using index_of_nat [OF assms(1,2,4,5)] index_of_nat [OF assms(1,2,4,6)] by simp
qed

theorem block_ordering_witness:
  "\<exists>i1 i2.
     Lexicographic_index 2 1 Combinations_2_1 \<lparr>dimensions = [2, 3], block_sizes = [8, 9]\<rparr>
       \<lparr>directions = \<lparr>c_in = [0], c_out = [1]\<rparr>, position_along = [1], position_across = [3]\<rparr>
       = Ok i1 \<and>
     Lexicographic_index 2 1 Combinations_2_1 \<lparr>dimensions = [2, 3], block_sizes = [8, 9]\<rparr>
       \<lparr>directions = \<lparr>c_in = [1], c_out = [0]\<rparr>, position_along = [0], position_across = [0]\<rparr>
       = Ok i2 \<and> i1 < i2"
proof -
  let ?e1 = "\<lparr>directions = \<lparr>c_in = [0], c_out = [1]\<rparr>, position_along = [1 :: Sint],
              position_across = [3 :: Sint]\<rparr>"
  let ?e2 = "\<lparr>directions = \<lparr>c_in = [1], c_out = [0]\<rparr>, position_along = [0 :: Sint],
              position_across = [0 :: Sint]\<rparr>"
  have h2: "length [2, 3 :: Sint] = 2" by simp
  have h3: "spec_size (map unat [2, 3 :: Sint]) Combinations_2_1 < 2 ^ 32"
    by (simp add: spec_size_def spec_block_size_def Combinations_2_1_def)
  have w1: "well_formed_Element 2 1 Combinations_2_1 [2, 3] ?e1"
    by (simp add: well_formed_Element_def Combinations_2_1_def)
  have w2: "well_formed_Element 2 1 Combinations_2_1 [2, 3] ?e2"
    by (simp add: well_formed_Element_def Combinations_2_1_def)
  have lt: "cindex Combinations_2_1 (directions ?e1) < cindex Combinations_2_1 (directions ?e2)"
    by (simp add: Combinations_2_1_def)
  show ?thesis
    using block_ordering [OF legal_parameters_2_1 h2 h3 Lexicographic_ctor_2_1_example w1 w2 lt] .
qed

text \<open>
  Without the bound the order can fail. For \<open>n = 4\<close>, \<open>k = 1\<close> and
  \<open>d = (254, 254, 254, 254)\<close> each of the four blocks has \<open>254 * 255 ^ 3\<close> cells,
  which fits, and their sum does not. The element of block 0 with
  \<open>position_across = (0, 0, 1)\<close> has index 16516350; the element of block 1 with
  \<open>position_across = (0, 0, 6)\<close> has index \<open>4211669250 + 6 * 16516350\<close> modulo
  \<open>2 ^ 32\<close>, which is 15800054.
\<close>

theorem block_ordering_overflow_example:
  "legal_parameters 4 1 Combinations_4_1 \<and>
   Lexicographic_ctor 4 1 Combinations_4_1 [254, 254, 254, 254] =
     Some (Ok \<lparr>dimensions = [254, 254, 254, 254],
               block_sizes = [4211669250, 4211669250, 4211669250, 4211669250]\<rparr>) \<and>
   well_formed_Element 4 1 Combinations_4_1 [254, 254, 254, 254]
     \<lparr>directions = \<lparr>c_in = [0], c_out = [1, 2, 3]\<rparr>, position_along = [0],
       position_across = [0, 0, 1]\<rparr> \<and>
   well_formed_Element 4 1 Combinations_4_1 [254, 254, 254, 254]
     \<lparr>directions = \<lparr>c_in = [1], c_out = [0, 2, 3]\<rparr>, position_along = [0],
       position_across = [0, 0, 6]\<rparr> \<and>
   cindex Combinations_4_1 \<lparr>c_in = [0], c_out = [1, 2, 3]\<rparr> <
     cindex Combinations_4_1 \<lparr>c_in = [1], c_out = [0, 2, 3]\<rparr> \<and>
   Lexicographic_index 4 1 Combinations_4_1
     \<lparr>dimensions = [254, 254, 254, 254],
       block_sizes = [4211669250, 4211669250, 4211669250, 4211669250]\<rparr>
     \<lparr>directions = \<lparr>c_in = [0], c_out = [1, 2, 3]\<rparr>, position_along = [0],
       position_across = [0, 0, 1]\<rparr> = Ok 16516350 \<and>
   Lexicographic_index 4 1 Combinations_4_1
     \<lparr>dimensions = [254, 254, 254, 254],
       block_sizes = [4211669250, 4211669250, 4211669250, 4211669250]\<rparr>
     \<lparr>directions = \<lparr>c_in = [1], c_out = [0, 2, 3]\<rparr>, position_along = [0],
       position_across = [0, 0, 6]\<rparr> = Ok 15800054 \<and>
   \<not> (16516350 :: Bint) < 15800054"
proof -
  have "well_formed_Element 4 1 Combinations_4_1 [254, 254, 254, 254]
     \<lparr>directions = \<lparr>c_in = [0], c_out = [1, 2, 3]\<rparr>, position_along = [0],
       position_across = [0, 0, 1]\<rparr>"
    by (simp add: well_formed_Element_def Combinations_4_1_def)
  moreover have "well_formed_Element 4 1 Combinations_4_1 [254, 254, 254, 254]
     \<lparr>directions = \<lparr>c_in = [1], c_out = [0, 2, 3]\<rparr>, position_along = [0],
       position_across = [0, 0, 6]\<rparr>"
    by (simp add: well_formed_Element_def Combinations_4_1_def)
  moreover have "cindex Combinations_4_1 \<lparr>c_in = [0], c_out = [1, 2, 3]\<rparr> <
     cindex Combinations_4_1 \<lparr>c_in = [1], c_out = [0, 2, 3]\<rparr>"
    by (simp add: Combinations_4_1_def)
  moreover have "Lexicographic_index 4 1 Combinations_4_1
     \<lparr>dimensions = [254, 254, 254, 254],
       block_sizes = [4211669250, 4211669250, 4211669250, 4211669250]\<rparr>
     \<lparr>directions = \<lparr>c_in = [0], c_out = [1, 2, 3]\<rparr>, position_along = [0],
       position_across = [0, 0, 1]\<rparr> = Ok 16516350"
    by (simp add: index_eval Combinations_4_1_def)
  moreover have "Lexicographic_index 4 1 Combinations_4_1
     \<lparr>dimensions = [254, 254, 254, 254],
       block_sizes = [4211669250, 4211669250, 4211669250, 4211669250]\<rparr>
     \<lparr>directions = \<lparr>c_in = [1], c_out = [0, 2, 3]\<rparr>, position_along = [0],
       position_across = [0, 0, 6]\<rparr> = Ok 15800054"
    by (simp add: index_eval Combinations_4_1_def)
  ultimately show ?thesis
    using legal_parameters_4_1 Lexicographic_ctor_4_1_example by simp
qed

section \<open>Shapes with a zero entry\<close>

text \<open>
  Claim C9, as amended. The constructor checks nothing. The entries of a shape are
  \<^verbatim>\<open>unsigned short\<close>, so none is negative; for every shape of length \<open>n\<close>, also one
  with an entry 0, the constructor returns an enumerator, in which every block whose
  combination chooses an axis with \<open>d[i] = 0\<close> has size 0.
\<close>

theorem ctor_accepts_every_shape:
  assumes "legal_parameters n k C" and "length d = n"
  shows "\<exists>L. Lexicographic_ctor n k C d = Some (Ok L) \<and>
             (\<forall>b<binomial_nk n k. (\<exists>a\<in>set (c_in (combs C ! b)). d ! a = 0) \<longrightarrow>
                  Lexicographic_block_size L (of_nat b) = Ok 0)"
proof -
  let ?L = "\<lparr>dimensions = d, block_sizes = map (block_product d) (combs C)\<rparr>"
  have len: "length (combs C) = binomial_nk n k"
    using assms(1) by (rule legal_length)
  have "Lexicographic_block_size ?L (of_nat b) = Ok 0"
    if b: "b < binomial_nk n k" and z: "\<exists>a\<in>set (c_in (combs C ! b)). d ! a = 0" for b
  proof -
    have "block_product d (combs C ! b) = 0"
      using block_product_nonzero [of d "combs C ! b"] z by blast
    moreover have "unat (of_nat b :: Tint) = b"
      using b assms(1) by (intro unat_Tint_of_nat) (simp add: legal_parameters_def)
    ultimately show ?thesis
      using b len by (simp add: Lexicographic_block_size_def rd_def)
  qed
  then show ?thesis
    using Lexicographic_ctor_value [OF assms] by blast
qed

theorem ctor_accepts_every_shape_witness:
  "\<exists>L. Lexicographic_ctor 2 1 Combinations_2_1 [0, 3] = Some (Ok L) \<and>
       Lexicographic_block_size L 0 = Ok 0"
proof -
  have h2: "length [0, 3 :: Sint] = 2" by simp
  have b: "(0 :: nat) < binomial_nk 2 1" by (simp add: binomial_nk_def)
  have z: "\<exists>a\<in>set (c_in (combs Combinations_2_1 ! 0)). [0, 3 :: Sint] ! a = 0"
    by (simp add: Combinations_2_1_def)
  obtain L where L: "Lexicographic_ctor 2 1 Combinations_2_1 [0, 3] = Some (Ok L)"
    and "\<forall>b<binomial_nk 2 1. (\<exists>a\<in>set (c_in (combs Combinations_2_1 ! b)). [0, 3 :: Sint] ! a = 0) \<longrightarrow>
           Lexicographic_block_size L (of_nat b) = Ok 0"
    using ctor_accepts_every_shape [OF legal_parameters_2_1 h2] by blast
  with b z have "Lexicographic_block_size L (of_nat 0) = Ok 0"
    by blast
  with L show ?thesis by auto
qed

text \<open>
  The enumerator of a shape with a zero entry can be used: for \<open>n = 1\<close>, \<open>k = 0\<close>
  and \<open>d = (0)\<close> it has one cell, which \<^verbatim>\<open>operator[]\<close> returns for the index 0 and
  to which \<^verbatim>\<open>index\<close> gives the index 0.
\<close>

theorem zero_dimension_example:
  "legal_parameters 1 0 Combinations_1_0 \<and>
   Lexicographic_ctor 1 0 Combinations_1_0 [0] = Some (Ok \<lparr>dimensions = [0], block_sizes = [1]\<rparr>) \<and>
   Lexicographic_size \<lparr>dimensions = [0], block_sizes = [1]\<rparr> = Ok 1 \<and>
   Lexicographic_at 1 0 Combinations_1_0 \<lparr>dimensions = [0], block_sizes = [1]\<rparr> 0 =
     Ok \<lparr>directions = \<lparr>c_in = [], c_out = [0]\<rparr>, position_along = [], position_across = [0]\<rparr> \<and>
   Lexicographic_index 1 0 Combinations_1_0 \<lparr>dimensions = [0], block_sizes = [1]\<rparr>
     \<lparr>directions = \<lparr>c_in = [], c_out = [0]\<rparr>, position_along = [], position_across = [0]\<rparr> = Ok 0"
proof -
  have "Lexicographic_ctor 1 0 Combinations_1_0 [0] =
      Some (Ok \<lparr>dimensions = [0], block_sizes = [1]\<rparr>)"
    using Lexicographic_ctor_value [OF legal_parameters_1_0, of "[0]"]
    by (simp add: block_product_def Combinations_1_0_def)
  moreover have "Lexicographic_size \<lparr>dimensions = [0], block_sizes = [1]\<rparr> = Ok 1"
    by (simp add: Lexicographic_size_value)
  moreover have "Lexicographic_at 1 0 Combinations_1_0 \<lparr>dimensions = [0], block_sizes = [1]\<rparr> 0 =
     Ok \<lparr>directions = \<lparr>c_in = [], c_out = [0]\<rparr>, position_along = [], position_across = [0]\<rparr>"
    by (simp add: Lexicographic_at_def for_uint_def along_body_def across_body_def rd_def
        Let_def locate.simps Combinations_1_0_def)
  moreover have "Lexicographic_index 1 0 Combinations_1_0 \<lparr>dimensions = [0], block_sizes = [1]\<rparr>
     \<lparr>directions = \<lparr>c_in = [], c_out = [0]\<rparr>, position_along = [], position_across = [0]\<rparr> = Ok 0"
    by (simp add: index_eval Combinations_1_0_def)
  ultimately show ?thesis
    using legal_parameters_1_0 by simp
qed

section \<open>The two round trips\<close>

lemma digits_less: "\<forall>r\<in>set rs. 0 < r \<Longrightarrow> list_all2 (<) (digits rs x) rs"
  by (induction rs arbitrary: x) simp_all

lemma along_radices_small: "r \<in> set (along_radices d c) \<Longrightarrow> r < 256"
  by (auto simp add: along_radices_def)

lemma across_radices_small: "r \<in> set (across_radices d c) \<Longrightarrow> r < 256"
  by (auto simp add: across_radices_def)

lemma unat_of_nat_digits:
  assumes "\<forall>r\<in>set rs. 0 < r \<and> r < 256"
  shows "map unat (map of_nat (digits rs x) :: Sint list) = digits rs x"
proof -
  have "list_all2 (<) (digits rs x) rs"
    using assms by (intro digits_less) simp
  then have small: "v < 256" if mem: "v \<in> set (digits rs x)" for v
  proof -
    obtain j where j: "j < length rs" and v: "v = digits rs x ! j"
      using mem by (auto simp add: in_set_conv_nth)
    have "digits rs x ! j < rs ! j"
      using \<open>list_all2 (<) (digits rs x) rs\<close> j by (simp add: list_all2_conv_all_nth)
    moreover have "rs ! j < 256"
      using assms j by simp
    ultimately show ?thesis using v by simp
  qed
  then have "unat (of_nat v :: Sint) = v" if "v \<in> set (digits rs x)" for v
  proof -
    have "v < 256" using that by (rule small)
    then have "v < 65536" by simp
    then show ?thesis by (simp add: unat_of_nat)
  qed
  then show ?thesis
    by (simp add: map_idI)
qed

lemma of_nat_sum_unat: "of_nat (sum_list (map unat xs)) = (sum_list xs :: Bint)"
  by (induction xs) simp_all

lemma locate_word_sum:
  assumes "locate bs 0 i = (b, idx)"
  shows "i = sum_list (take b bs) + idx"
proof -
  have "unat i = sum_list (map unat (take b bs)) + unat idx"
    using locate_sum [OF assms] by simp
  then have "of_nat (unat i) = (of_nat (sum_list (map unat (take b bs)) + unat idx) :: Bint)"
    by simp
  then show ?thesis
    by (simp add: of_nat_sum_unat)
qed

lemma index_at_located:
  assumes "legal_parameters n k C" and "length d = n"
    and "Lexicographic_ctor n k C d = Some (Ok L)"
    and "locate (block_sizes L) 0 i = (b, idx)" and "b < binomial_nk n k"
    and "\<forall>r\<in>set (along_radices d (combs C ! b)). r \<noteq> 0"
    and "\<forall>r\<in>set (across_radices d (combs C ! b)). r \<noteq> 0"
  shows "\<exists>e. Lexicographic_at n k C L i = Ok e \<and>
             Lexicographic_index n k C L e =
               Ok (i - idx + of_nat (unat idx mod
                     prod_list (along_radices d (combs C ! b) @ across_radices d (combs C ! b))))"
proof -
  let ?c = "combs C ! b"
  let ?ri = "along_radices d ?c" and ?ro = "across_radices d ?c"
  let ?x = "unat idx"
  let ?e = "\<lparr>directions = ?c,
             position_along = map of_nat (digits ?ri ?x),
             position_across = map of_nat (digits ?ro (?x div prod_list ?ri))\<rparr> :: Element"
  have L: "L = \<lparr>dimensions = d, block_sizes = map (block_product d) (combs C)\<rparr>"
    using assms(1,2,3) by (rule ctor_result)
  have wf: "wf_Combinations n k C" and len: "length (combs C) = binomial_nk n k"
    using assms(1) by (simp_all add: legal_wf legal_length)
  have c: "wf_Combination n k ?c"
    using wf assms(5) by (rule wf_Combinations_nth)
  have mem: "?c \<in> set (combs C)"
    using assms(5) len by simp
  have ci: "cindex C ?c = b"
    using wf assms(5) len by (simp add: wf_Combinations_def list_all_iff)
  have at: "Lexicographic_at n k C L i = Ok ?e"
    using Lexicographic_at_value [of n k C L i b idx] wf assms(2,4,5,6,7) len
    by (simp add: L)
  have lri: "length ?ri = k" and lro: "length ?ro = n - k"
    using c by (simp_all add: along_radices_def across_radices_def wf_Combination_def)
  have "map unat (map of_nat (digits ?ri ?x) :: Sint list) = digits ?ri ?x"
    using assms(6) along_radices_small [of _ d ?c] by (intro unat_of_nat_digits) auto
  moreover have "map unat (map of_nat (digits ?ro (?x div prod_list ?ri)) :: Sint list) =
      digits ?ro (?x div prod_list ?ri)"
    using assms(7) across_radices_small [of _ d ?c] by (intro unat_of_nat_digits) auto
  ultimately have "map unat (position_along ?e @ position_across ?e) = digits (?ri @ ?ro) ?x"
    by (simp add: digits_append)
  moreover have "Lexicographic_index n k C L ?e =
        Ok (sum_list (take (cindex C (directions ?e)) (map (block_product d) (combs C))) +
            of_nat (mixed_radix (along_radices d (directions ?e) @ across_radices d (directions ?e))
              (map unat (position_along ?e @ position_across ?e))))"
    by (rule index_after_ctor [OF assms(1,2,3)]) (simp_all add: mem lri lro)
  ultimately have "Lexicographic_index n k C L ?e =
      Ok (sum_list (take b (map (block_product d) (combs C))) +
          of_nat (mixed_radix (?ri @ ?ro) (digits (?ri @ ?ro) ?x)))"
    by (simp only: ci Element.simps)
  moreover have "sum_list (take b (map (block_product d) (combs C))) = i - idx"
    using locate_word_sum [OF assms(4)] by (simp add: L)
  ultimately have "Lexicographic_index n k C L ?e =
      Ok (i - idx + of_nat (?x mod prod_list (?ri @ ?ro)))"
    by (simp only: mixed_radix_digits)
  with at show ?thesis by blast
qed

lemma roundtrip_at_iff:
  "roundtrip_at n k C L i \<longleftrightarrow>
   (\<exists>e. Lexicographic_at n k C L i = Ok e \<and> Lexicographic_index n k C L e = Ok i)"
  by (cases "Lexicographic_at n k C L i") (simp_all add: roundtrip_at_def)

lemma fits_Tint_radices:
  assumes "wf_Combination n k c" and "length d = n" and "fits_Tint d"
  shows "radices_fit_Tint d c"
  by (simp add: radices_fit_Tint_def spec_radices_def along_radices_fit [OF assms]
      across_radices_fit [OF assms])

lemma prod_list_nat_nonzero: "prod_list rs \<noteq> (0 :: nat) \<Longrightarrow> \<forall>r\<in>set rs. r \<noteq> 0"
  by (induction rs) auto

lemma unat_block_product_le:
  assumes "wf_Combination n k c" and "length d = n"
  shows "unat (block_product d c) \<le> spec_block_size (map unat d) c"
  by (simp add: block_product_of_nat [OF assms] unat_of_nat)

lemma located_block:
  assumes "legal_parameters n k C" and "length d = n"
    and "Lexicographic_ctor n k C d = Some (Ok L)" and "Lexicographic_size L = Ok s"
    and "i < s" and "locate (block_sizes L) 0 i = (b, idx)"
  shows "b < binomial_nk n k" and "unat idx < spec_block_size (map unat d) (combs C ! b)"
proof -
  let ?bs = "map (block_product d) (combs C)"
  have L: "L = \<lparr>dimensions = d, block_sizes = ?bs\<rparr>"
    using assms(1,2,3) by (rule ctor_result)
  have wf: "wf_Combinations n k C" and len: "length (combs C) = binomial_nk n k"
    using assms(1) by (simp_all add: legal_wf legal_length)
  have s: "s = sum_list ?bs"
    using assms(4) by (simp add: L Lexicographic_size_value)
  have loc: "locate ?bs 0 i = (b, idx)"
    using assms(6) by (simp add: L)
  have "unat i < sum_list (map unat (drop 0 ?bs))"
    using assms(5) unat_sum_list_le [of ?bs] by (simp add: s word_less_nat_alt)
  then have "b \<noteq> length ?bs"
    using locate_end [OF loc] by simp
  moreover have "b \<le> length ?bs"
    using locate_bound [OF loc] by simp
  ultimately show b: "b < binomial_nk n k"
    using len by simp
  then have "idx < ?bs ! b"
    using locate_less [OF loc] len by simp
  then have "unat idx < unat (block_product d (combs C ! b))"
    using b len by (simp add: word_less_nat_alt)
  also have "\<dots> \<le> spec_block_size (map unat d) (combs C ! b)"
    using wf_Combinations_nth [OF wf b] assms(2) by (rule unat_block_product_le)
  finally show "unat idx < spec_block_size (map unat d) (combs C ! b)" .
qed

lemma encode_decode:
  assumes "legal_parameters n k C" and "length d = n"
    and "Lexicographic_ctor n k C d = Some (Ok L)" and "Lexicographic_size L = Ok s"
    and "i < s" and "\<forall>c\<in>set (combs C). radices_fit_Tint d c"
  shows "\<exists>e. Lexicographic_at n k C L i = Ok e \<and> Lexicographic_index n k C L e = Ok i"
proof -
  obtain b idx where loc: "locate (block_sizes L) 0 i = (b, idx)"
    by (cases "locate (block_sizes L) 0 i")
  let ?c = "combs C ! b"
  let ?rs = "along_radices d ?c @ across_radices d ?c"
  have b: "b < binomial_nk n k" and lt: "unat idx < spec_block_size (map unat d) ?c"
    using located_block [OF assms(1,2,3,4,5) loc] by simp_all
  have "?c \<in> set (combs C)"
    using b legal_length [OF assms(1)] by simp
  then have rs: "?rs = spec_radices (map unat d) ?c"
    using assms(6) by (simp add: radices_fit_Tint_def)
  then have prod: "prod_list ?rs = spec_block_size (map unat d) ?c"
    by (simp only: prod_spec_radices)
  then have "prod_list ?rs \<noteq> 0"
    using lt by simp
  then have nz: "\<forall>r\<in>set ?rs. r \<noteq> 0"
    by (rule prod_list_nat_nonzero)
  have "\<exists>e. Lexicographic_at n k C L i = Ok e \<and>
            Lexicographic_index n k C L e = Ok (i - idx + of_nat (unat idx mod prod_list ?rs))"
    using nz by (intro index_at_located [OF assms(1,2,3) loc b]) simp_all
  moreover have "unat idx mod prod_list ?rs = unat idx"
    using lt prod by simp
  ultimately show ?thesis by simp
qed

lemma radices_above_digits: "list_all2 (<) ps rs \<Longrightarrow> \<forall>r\<in>set rs. r \<noteq> (0 :: nat)"
  by (induction ps rs rule: list_all2_induct) auto

lemma Element_eqI:
  "directions e = c \<Longrightarrow> position_along e = al \<Longrightarrow> position_across e = ac \<Longrightarrow>
   \<lparr>directions = c, position_along = al, position_across = ac\<rparr> = (e :: Element)"
  by (cases e) simp

lemma of_nat_unat_Sint: "map of_nat (map unat ps) = (ps :: Sint list)"
  by (simp add: map_idI)

lemma decode_encode:
  assumes "legal_parameters n k C" and "length d = n"
    and "spec_size (map unat d) C < 2 ^ 32"
    and "Lexicographic_ctor n k C d = Some (Ok L)"
    and "well_formed_Element n k C d e" and "radices_fit_Tint d (directions e)"
  shows "Lexicographic_index n k C L e = Ok (of_nat (index_nat d C e)) \<and>
         Lexicographic_at n k C L (of_nat (index_nat d C e)) = Ok e"
proof -
  let ?c = "directions e"
  let ?ri = "along_radices d ?c" and ?ro = "across_radices d ?c"
  let ?bs = "map (block_product d) (combs C)"
  let ?Bs = "map (spec_block_size (map unat d)) (combs C)"
  let ?ps = "map unat (position_along e @ position_across e)"
  let ?ci = "cindex C ?c"
  let ?m = "mixed_radix (?ri @ ?ro) ?ps"
  have L: "L = \<lparr>dimensions = d, block_sizes = ?bs\<rparr>"
    using assms(1,2,4) by (rule ctor_result)
  have wf: "wf_Combinations n k C" and len: "length (combs C) = binomial_nk n k"
    using assms(1) by (simp_all add: legal_wf legal_length)
  have mem: "?c \<in> set (combs C)" and la: "length (position_along e) = k"
    and lc: "length (position_across e) = n - k"
    using assms(5) by (simp_all add: well_formed_Element_def)
  have ci: "?ci < binomial_nk n k" and at: "combs C ! ?ci = ?c"
    using cindex_member [OF wf mem] by simp_all
  have c: "wf_Combination n k ?c"
    using wf mem by (rule wf_Combinations_mem)
  have lri: "length ?ri = k"
    using c by (simp add: along_radices_def wf_Combination_def)
  have rs: "?ri @ ?ro = spec_radices (map unat d) ?c"
    using assms(6) by (simp add: radices_fit_Tint_def)
  have dg: "list_all2 (<) ?ps (?ri @ ?ro)"
    using well_formed_digits [OF wf assms(2,5)] by (simp only: rs)
  have m: "?m < ?Bs ! ?ci"
    using mixed_radix_bound [OF dg] ci len at by (simp add: rs prod_spec_radices)
  have N: "index_nat d C e = sum_list (take ?ci ?Bs) + ?m"
    by (simp add: index_nat_def)
  have "index_nat d C e < sum_list (take (Suc ?ci) ?Bs)"
    using assms(1,2,5) by (rule index_nat_bounds(2))
  also have "\<dots> \<le> spec_size (map unat d) C"
    unfolding spec_size_def by (rule sum_list_take_le)
  finally have small: "index_nat d C e < 2 ^ 32"
    using assms(3) by simp
  have ub: "map unat ?bs = ?Bs"
    using wf assms(2,3) by (rule sum_unat_block_sizes)
  have u: "unat (of_nat (index_nat d C e) :: Bint) = index_nat d C e"
    using small by (simp add: unat_of_nat)
  have t: "map unat (take ?ci ?bs) = take ?ci ?Bs"
    by (simp only: take_map [symmetric] ub)
  have "sum_list (map unat (take (?ci - 0) (drop 0 ?bs))) + ?m = index_nat d C e"
    by (simp only: N t minus_nat.diff_0 drop_0)
  then have "unat (of_nat (index_nat d C e) :: Bint) = sum_list (map unat (take (?ci - 0) (drop 0 ?bs))) + ?m"
    using u by metis
  moreover have "?ci < length ?bs"
    using ci len by simp
  then have "map unat ?bs ! ?ci = unat (?bs ! ?ci)"
    by (rule nth_map)
  then have "?m < unat (?bs ! ?ci)"
    using m by (simp only: ub)
  ultimately have "locate ?bs 0 (of_nat (index_nat d C e)) = (?ci, of_nat ?m)"
    using ci len by (intro locate_unique) simp_all
  then have loc: "locate (block_sizes L) 0 (of_nat (index_nat d C e)) = (?ci, of_nat ?m)"
    by (simp add: L)
  have nz: "\<forall>r\<in>set (?ri @ ?ro). r \<noteq> 0"
    using dg by (rule radices_above_digits)
  have "?m < 2 ^ 32"
    using small N by simp
  then have um: "unat (of_nat ?m :: Bint) = ?m"
    by (simp add: unat_of_nat)
  have "digits ?ri ?m @ digits ?ro (?m div prod_list ?ri) =
        map unat (position_along e) @ map unat (position_across e)"
    using digits_mixed_radix [OF dg] by (simp add: digits_append)
  then have d1: "digits ?ri ?m = map unat (position_along e)"
    and d2: "digits ?ro (?m div prod_list ?ri) = map unat (position_across e)"
    using lri la by simp_all
  have dl: "dimensions L = d"
    by (simp add: L)
  have "Lexicographic_at n k C L (of_nat (index_nat d C e)) =
      Ok \<lparr>directions = combs C ! ?ci,
          position_along = map of_nat (digits (along_radices (dimensions L) (combs C ! ?ci))
             (unat (of_nat ?m :: Bint))),
          position_across = map of_nat (digits (across_radices (dimensions L) (combs C ! ?ci))
             (unat (of_nat ?m :: Bint) div prod_list (along_radices (dimensions L) (combs C ! ?ci))))\<rparr>"
    using nz by (intro Lexicographic_at_value [OF wf _ _ loc ci]) (simp_all add: L len assms(2) at)
  then have "Lexicographic_at n k C L (of_nat (index_nat d C e)) =
      Ok \<lparr>directions = ?c, position_along = position_along e,
          position_across = position_across e\<rparr>"
    by (simp only: dl at um d1 d2 of_nat_unat_Sint)
  then have "Lexicographic_at n k C L (of_nat (index_nat d C e)) = Ok e"
    by (simp add: Element_eqI)
  then show ?thesis
    using index_of_nat [OF assms(1,2,4,5)] by simp
qed

section \<open>Decoding the encoded index\<close>

text \<open>
  Claim C2, as amended. Let the number of cells of the shape \<open>d\<close> fit \<^verbatim>\<open>Bint\<close>, let
  every \<open>d[i] + 1\<close> fit \<^verbatim>\<open>Tint\<close>, and let the constructor have returned \<open>L\<close>. For
  every well-formed element \<open>e\<close>, \<^verbatim>\<open>index(e)\<close> returns an index and \<^verbatim>\<open>operator[]\<close>
  returns \<open>e\<close> for it.
\<close>

theorem decode_of_encode:
  assumes "legal_parameters n k C" and "length d = n"
    and "spec_size (map unat d) C < 2 ^ 32" and "fits_Tint d"
    and "Lexicographic_ctor n k C d = Some (Ok L)"
    and "well_formed_Element n k C d e"
  shows "\<exists>i. Lexicographic_index n k C L e = Ok i \<and> Lexicographic_at n k C L i = Ok e"
proof -
  have "directions e \<in> set (combs C)"
    using assms(6) by (simp add: well_formed_Element_def)
  then have "wf_Combination n k (directions e)"
    using legal_wf [OF assms(1)] by (simp add: wf_Combinations_mem)
  then have "radices_fit_Tint d (directions e)"
    using assms(2,4) by (rule fits_Tint_radices)
  then show ?thesis
    using decode_encode [OF assms(1,2,3,5,6)] by blast
qed

theorem decode_of_encode_witness:
  "Lexicographic_index 2 1 Combinations_2_1 \<lparr>dimensions = [2, 3], block_sizes = [8, 9]\<rparr>
     \<lparr>directions = \<lparr>c_in = [1], c_out = [0]\<rparr>, position_along = [2], position_across = [2]\<rparr>
     = Ok 16 \<and>
   Lexicographic_at 2 1 Combinations_2_1 \<lparr>dimensions = [2, 3], block_sizes = [8, 9]\<rparr> 16
     = Ok \<lparr>directions = \<lparr>c_in = [1], c_out = [0]\<rparr>, position_along = [2],
           position_across = [2]\<rparr>"
proof -
  let ?e = "\<lparr>directions = \<lparr>c_in = [1], c_out = [0]\<rparr>, position_along = [2 :: Sint],
             position_across = [2 :: Sint]\<rparr>"
  let ?L = "\<lparr>dimensions = [2, 3], block_sizes = [8, 9]\<rparr>"
  have h2: "length [2, 3 :: Sint] = 2" by simp
  have h3: "spec_size (map unat [2, 3 :: Sint]) Combinations_2_1 < 2 ^ 32"
    by (simp add: spec_size_def spec_block_size_def Combinations_2_1_def)
  have h4: "fits_Tint [2, 3]"
    by (simp add: fits_Tint_def)
  have w: "well_formed_Element 2 1 Combinations_2_1 [2, 3] ?e"
    by (simp add: well_formed_Element_def Combinations_2_1_def)
  have "\<exists>i. Lexicographic_index 2 1 Combinations_2_1 ?L ?e = Ok i \<and>
            Lexicographic_at 2 1 Combinations_2_1 ?L i = Ok ?e"
    using decode_of_encode [OF legal_parameters_2_1 h2 h3 h4 Lexicographic_ctor_2_1_example w] .
  moreover have "Lexicographic_index 2 1 Combinations_2_1 ?L ?e = Ok 16"
    by (simp add: index_eval Combinations_2_1_def)
  ultimately show ?thesis by auto
qed

text \<open>
  When the number of cells does not fit \<^verbatim>\<open>Bint\<close> the index wraps: for \<open>n = 4\<close>,
  \<open>k = 1\<close> and \<open>d = (254, 254, 254, 254)\<close>, where every radix fits \<^verbatim>\<open>Tint\<close>, the
  element of block 1 with \<open>position_across = (0, 0, 6)\<close> has index 15800054, and
  \<^verbatim>\<open>operator[]\<close> returns an element of block 0 for it.
\<close>

theorem decode_of_encode_overflow_example:
  "legal_parameters 4 1 Combinations_4_1 \<and> fits_Tint [254, 254, 254, 254] \<and>
   Lexicographic_ctor 4 1 Combinations_4_1 [254, 254, 254, 254] =
     Some (Ok \<lparr>dimensions = [254, 254, 254, 254],
               block_sizes = [4211669250, 4211669250, 4211669250, 4211669250]\<rparr>) \<and>
   well_formed_Element 4 1 Combinations_4_1 [254, 254, 254, 254]
     \<lparr>directions = \<lparr>c_in = [1], c_out = [0, 2, 3]\<rparr>, position_along = [0],
       position_across = [0, 0, 6]\<rparr> \<and>
   Lexicographic_index 4 1 Combinations_4_1
     \<lparr>dimensions = [254, 254, 254, 254],
       block_sizes = [4211669250, 4211669250, 4211669250, 4211669250]\<rparr>
     \<lparr>directions = \<lparr>c_in = [1], c_out = [0, 2, 3]\<rparr>, position_along = [0],
       position_across = [0, 0, 6]\<rparr> = Ok 15800054 \<and>
   Lexicographic_at 4 1 Combinations_4_1
     \<lparr>dimensions = [254, 254, 254, 254],
       block_sizes = [4211669250, 4211669250, 4211669250, 4211669250]\<rparr> 15800054 =
     Ok \<lparr>directions = \<lparr>c_in = [0], c_out = [1, 2, 3]\<rparr>, position_along = [238],
         position_across = [239, 243, 0]\<rparr>"
proof -
  have "well_formed_Element 4 1 Combinations_4_1 [254, 254, 254, 254]
     \<lparr>directions = \<lparr>c_in = [1], c_out = [0, 2, 3]\<rparr>, position_along = [0],
       position_across = [0, 0, 6]\<rparr>"
    by (simp add: well_formed_Element_def Combinations_4_1_def)
  moreover have "Lexicographic_index 4 1 Combinations_4_1
     \<lparr>dimensions = [254, 254, 254, 254],
       block_sizes = [4211669250, 4211669250, 4211669250, 4211669250]\<rparr>
     \<lparr>directions = \<lparr>c_in = [1], c_out = [0, 2, 3]\<rparr>, position_along = [0],
       position_across = [0, 0, 6]\<rparr> = Ok 15800054"
    by (simp add: index_eval Combinations_4_1_def)
  moreover have "Lexicographic_at 4 1 Combinations_4_1
     \<lparr>dimensions = [254, 254, 254, 254],
       block_sizes = [4211669250, 4211669250, 4211669250, 4211669250]\<rparr> 15800054 =
     Ok \<lparr>directions = \<lparr>c_in = [0], c_out = [1, 2, 3]\<rparr>, position_along = [238],
         position_across = [239, 243, 0]\<rparr>"
    by (simp add: at_eval Combinations_4_1_def numeral_3_eq_3)
  moreover have "fits_Tint [254, 254, 254, 254]"
    by (simp add: fits_Tint_def)
  ultimately show ?thesis
    using legal_parameters_4_1 Lexicographic_ctor_4_1_example by simp
qed

section \<open>Encoding the decoded element\<close>

text \<open>
  Claim C1 says that \<^verbatim>\<open>index(operator[](i)) = i\<close> for every shape with entries
  \<open>d[i] \<ge> 1\<close> and every \<open>i < size()\<close>. The code does not do that: for \<open>n = k = 1\<close>
  and \<open>d = (300)\<close>, \<^verbatim>\<open>size()\<close> is 300, and for the index 100 \<^verbatim>\<open>operator[]\<close> computes
  the digit with the radix \<open>300 mod 256 = 44\<close>, which gives \<open>position_along = (12)\<close>,
  and \<^verbatim>\<open>index\<close> of that element is 12.
\<close>

theorem encode_of_decode_fails_example:
  "legal_parameters 1 1 Combinations_1_1 \<and>
   Lexicographic_ctor 1 1 Combinations_1_1 [300] =
     Some (Ok \<lparr>dimensions = [300], block_sizes = [300]\<rparr>) \<and>
   Lexicographic_size \<lparr>dimensions = [300], block_sizes = [300]\<rparr> = Ok 300 \<and>
   (100 :: Bint) < 300 \<and>
   Lexicographic_at 1 1 Combinations_1_1 \<lparr>dimensions = [300], block_sizes = [300]\<rparr> 100 =
     Ok \<lparr>directions = \<lparr>c_in = [0], c_out = []\<rparr>, position_along = [12], position_across = []\<rparr> \<and>
   Lexicographic_index 1 1 Combinations_1_1 \<lparr>dimensions = [300], block_sizes = [300]\<rparr>
     \<lparr>directions = \<lparr>c_in = [0], c_out = []\<rparr>, position_along = [12], position_across = []\<rparr>
     = Ok 12"
proof -
  have "Lexicographic_ctor 1 1 Combinations_1_1 [300] =
     Some (Ok \<lparr>dimensions = [300], block_sizes = [300]\<rparr>)"
    using Lexicographic_ctor_value [OF legal_parameters_1_1, of "[300]"]
    by (simp add: block_product_def Combinations_1_1_def)
  moreover have "Lexicographic_size \<lparr>dimensions = [300], block_sizes = [300]\<rparr> = Ok 300"
    by (simp add: Lexicographic_size_value)
  moreover have "Lexicographic_at 1 1 Combinations_1_1 \<lparr>dimensions = [300], block_sizes = [300]\<rparr> 100 =
     Ok \<lparr>directions = \<lparr>c_in = [0], c_out = []\<rparr>, position_along = [12], position_across = []\<rparr>"
    by (simp add: at_eval Combinations_1_1_def)
  moreover have "Lexicographic_index 1 1 Combinations_1_1 \<lparr>dimensions = [300], block_sizes = [300]\<rparr>
     \<lparr>directions = \<lparr>c_in = [0], c_out = []\<rparr>, position_along = [12], position_across = []\<rparr>
     = Ok 12"
    by (simp add: index_eval Combinations_1_1_def)
  ultimately show ?thesis
    using legal_parameters_1_1 by simp
qed

section \<open>The radix in \<^verbatim>\<open>Tint\<close>\<close>

lemma forM_Ok_each:
  "forM body is s = Ok s' \<Longrightarrow> i \<in> set is \<Longrightarrow> \<exists>s1 s2. body i s1 = Ok s2"
proof (induction "is" arbitrary: s)
  case Nil
  then show ?case by simp
next
  case (Cons j js)
  then obtain s1 where j: "body j s = Ok s1" and rest: "forM body js s1 = Ok s'"
    by (auto split: result.splits)
  show ?case
  proof (cases "i = j")
    case True
    with j show ?thesis by blast
  next
    case False
    with Cons.prems(2) have "i \<in> set js" by simp
    with Cons.IH [OF rest] show ?thesis .
  qed
qed

lemma along_body_Ok:
  assumes "along_body d c i st = Ok st'" and "i < length (c_in c)"
  shows "along_radices d c ! i \<noteq> 0"
proof -
  obtain al idx where st: "st = (al, idx)" by (cases st)
  have "(ucast (d ! (c_in c ! i)) :: Tint) \<noteq> 0"
    using assms by (auto simp add: along_body_def st rd_def Let_def split: if_splits)
  then show ?thesis
    using assms(2) by (simp add: along_radices_def Tint_zero)
qed

lemma across_body_Ok:
  assumes "across_body d c i st = Ok st'" and "i < length (c_out c)"
  shows "across_radices d c ! i \<noteq> 0"
proof -
  obtain al idx where st: "st = (al, idx)" by (cases st)
  have "(ucast (1 + (ucast (d ! (c_out c ! i)) :: Bint)) :: Tint) \<noteq> 0"
    using assms by (auto simp add: across_body_def st rd_def Let_def split: if_splits)
  then have "unat (1 + (ucast (d ! (c_out c ! i)) :: Bint)) mod 256 \<noteq> 0"
    by (simp only: Tint_zero) simp
  then show ?thesis
    using assms(2) by (simp add: across_radices_def unat_succ_Sint del: of_nat_Suc)
qed

lemma rbind_Ok_iff: "rbind m f = Ok v \<longleftrightarrow> (\<exists>x. m = Ok x \<and> f x = Ok v)"
  by (cases m) simp_all

lemma at_Ok_radices:
  assumes "wf_Combinations n k C" and "length (block_sizes L) = binomial_nk n k"
    and "locate (block_sizes L) 0 i = (b, idx)" and "b < binomial_nk n k"
    and "Lexicographic_at n k C L i = Ok e"
  shows "\<forall>r\<in>set (along_radices (dimensions L) (combs C ! b)). r \<noteq> 0"
    and "\<forall>r\<in>set (across_radices (dimensions L) (combs C ! b)). r \<noteq> 0"
proof -
  let ?c = "combs C ! b" and ?d = "dimensions L"
  have c: "wf_Combination n k ?c"
    using assms(1,4) by (rule wf_Combinations_nth)
  have len: "length (combs C) = binomial_nk n k"
    using assms(1) by (simp add: wf_Combinations_def)
  have lin: "length (c_in ?c) = k" and lout: "length (c_out ?c) = n - k"
    using c by (simp_all add: wf_Combination_def)
  obtain al idx1 ac idx2 where
    al: "forM (along_body ?d ?c) [0..<k] (replicate k 0, idx) = Ok (al, idx1)" and
    ac: "forM (across_body ?d ?c) [0..<n - k] (replicate (n - k) 0, idx1) = Ok (ac, idx2)"
    using assms(2,3,4,5) len
    by (auto simp add: Lexicographic_at_def rd_def rbind_Ok_iff for_uint_def)
  show "\<forall>r\<in>set (along_radices ?d ?c). r \<noteq> 0"
  proof
    fix r assume "r \<in> set (along_radices ?d ?c)"
    then obtain j where j: "j < k" and r: "r = along_radices ?d ?c ! j"
      using lin by (auto simp add: in_set_conv_nth along_radices_def)
    obtain s1 s2 where "along_body ?d ?c j s1 = Ok s2"
      using forM_Ok_each [OF al, of j] j by auto
    then show "r \<noteq> 0"
      using along_body_Ok [of ?d ?c j s1 s2] j lin r by simp
  qed
  show "\<forall>r\<in>set (across_radices ?d ?c). r \<noteq> 0"
  proof
    fix r assume "r \<in> set (across_radices ?d ?c)"
    then obtain j where j: "j < n - k" and r: "r = across_radices ?d ?c ! j"
      using lout by (auto simp add: in_set_conv_nth across_radices_def)
    obtain s1 s2 where "across_body ?d ?c j s1 = Ok s2"
      using forM_Ok_each [OF ac, of j] j by auto
    then show "r \<noteq> 0"
      using across_body_Ok [of ?d ?c j s1 s2] j lout r by simp
  qed
qed

lemma prod_list_pos: "\<forall>t\<in>set ts. 0 < t \<Longrightarrow> 0 < (prod_list ts :: nat)"
  by (induction ts) simp_all

lemma prod_list_strict:
  "list_all2 (\<le>) ts rs \<Longrightarrow> \<forall>t\<in>set ts. 0 < t \<Longrightarrow> ts \<noteq> rs \<Longrightarrow>
   prod_list ts < (prod_list rs :: nat)"
proof (induction ts rs rule: list_all2_induct)
  case Nil
  then show ?case by simp
next
  case (Cons t ts r rs)
  have le: "prod_list ts \<le> prod_list rs"
    using Cons.hyps(2) by (induction ts rs rule: list_all2_induct) (simp_all add: mult_le_mono)
  have pos: "0 < prod_list ts" "0 < t"
    using Cons.prems(1) by (simp_all add: prod_list_pos)
  show ?case
  proof (cases "t = r")
    case True
    then have "ts \<noteq> rs" using Cons.prems(2) by simp
    then have "prod_list ts < prod_list rs"
      using Cons.IH Cons.prems(1) by simp
    then show ?thesis using True pos by simp
  next
    case False
    then have "t < r" using Cons.hyps(1) by simp
    then have "t * prod_list ts < r * prod_list ts"
      using pos by simp
    also have "\<dots> \<le> r * prod_list rs"
      using le by simp
    finally show ?thesis by simp
  qed
qed

lemma block_index_located:
  assumes "legal_parameters n k C" and "length d = n"
    and "spec_size (map unat d) C < 2 ^ 32"
    and "Lexicographic_ctor n k C d = Some (Ok L)" and "Lexicographic_size L = Ok s"
    and "c \<in> set (combs C)" and "x < spec_block_size (map unat d) c"
  shows "of_nat (sum_list (take (cindex C c) (map (spec_block_size (map unat d)) (combs C))) + x) < s"
    and "locate (block_sizes L) 0
           (of_nat (sum_list (take (cindex C c) (map (spec_block_size (map unat d)) (combs C))) + x))
         = (cindex C c, of_nat x)"
    and "unat (of_nat x :: Bint) = x"
proof -
  let ?bs = "map (block_product d) (combs C)"
  let ?Bs = "map (spec_block_size (map unat d)) (combs C)"
  let ?b = "cindex C c"
  let ?P = "sum_list (take ?b ?Bs)"
  have L: "L = \<lparr>dimensions = d, block_sizes = ?bs\<rparr>"
    using assms(1,2,4) by (rule ctor_result)
  have wf: "wf_Combinations n k C" and len: "length (combs C) = binomial_nk n k"
    using assms(1) by (simp_all add: legal_wf legal_length)
  have b: "?b < length (combs C)" and at: "combs C ! ?b = c"
    using cindex_member [OF wf assms(6)] len by simp_all
  have ub: "map unat ?bs = ?Bs"
    using wf assms(2,3) by (rule sum_unat_block_sizes)
  have "?P + x < ?P + ?Bs ! ?b"
    using assms(7) b at by simp
  also have "\<dots> = sum_list (take (Suc ?b) ?Bs)"
    using b by (simp add: sum_list_take_Suc)
  also have "\<dots> \<le> spec_size (map unat d) C"
    unfolding spec_size_def by (rule sum_list_take_le)
  finally have lt: "?P + x < spec_size (map unat d) C" .
  then have small: "?P + x < 2 ^ 32"
    using assms(3) by simp
  then have u: "unat (of_nat (?P + x) :: Bint) = ?P + x"
    by (simp add: unat_of_nat del: of_nat_add)
  have "x < 2 ^ 32"
    using small by simp
  then show ux: "unat (of_nat x :: Bint) = x"
    by (simp add: unat_of_nat)
  have "s = of_nat (spec_size (map unat d) C)"
    using assms(5) by (simp add: L Lexicographic_size_value sum_block_sizes_of_nat [OF wf assms(2)])
  then have "unat s = spec_size (map unat d) C"
    using assms(3) by (simp add: unat_of_nat)
  then show "of_nat (?P + x) < s"
    using lt u by (simp only: word_less_nat_alt)
  have t: "map unat (take ?b ?bs) = take ?b ?Bs"
    by (simp only: take_map [symmetric] ub)
  have "sum_list (map unat (take (?b - 0) (drop 0 ?bs))) + x = ?P + x"
    by (simp only: t minus_nat.diff_0 drop_0)
  then have e: "unat (of_nat (?P + x) :: Bint) = sum_list (map unat (take (?b - 0) (drop 0 ?bs))) + x"
    using u by metis
  have "?b < length ?bs"
    using b by simp
  then have "map unat ?bs ! ?b = unat (?bs ! ?b)"
    by (rule nth_map)
  then have "x < unat (?bs ! ?b)"
    using assms(7) b at by (simp only: ub) simp
  then have "locate ?bs 0 (of_nat (?P + x)) = (?b, of_nat x)"
    using b e by (intro locate_unique) simp_all
  then show "locate (block_sizes L) 0 (of_nat (?P + x)) = (?b, of_nat x)"
    by (simp add: L)
qed

lemma spec_radices_pos:
  assumes "wf_Combination n k c" and "length d = n" and "\<forall>x\<in>set d. x \<noteq> 0"
  shows "\<forall>r\<in>set (spec_radices (map unat d) c). 0 < r"
proof -
  have "0 < map unat d ! a" if "a \<in> set (c_in c)" for a
  proof -
    have a: "a < length d"
      using wf_Combination_in_lt [OF assms(1) that] assms(2) by simp
    then have "d ! a \<noteq> 0" using assms(3) by simp
    then show ?thesis using a by (simp add: unat_gt_0)
  qed
  then show ?thesis by (auto simp add: spec_radices_def)
qed

lemma roundtrip_needs_radices:
  assumes "legal_parameters n k C" and "length d = n" and "\<forall>x\<in>set d. x \<noteq> 0"
    and "spec_size (map unat d) C < 2 ^ 32"
    and "Lexicographic_ctor n k C d = Some (Ok L)" and "Lexicographic_size L = Ok sz"
    and "\<forall>i < sz. roundtrip_at n k C L i" and "c \<in> set (combs C)"
  shows "radices_fit_Tint d c"
proof (rule ccontr)
  assume nf: "\<not> radices_fit_Tint d c"
  let ?ts = "along_radices d c @ across_radices d c"
  let ?rs = "spec_radices (map unat d) c"
  let ?P = "sum_list (take (cindex C c) (map (spec_block_size (map unat d)) (combs C)))"
  have L: "L = \<lparr>dimensions = d, block_sizes = map (block_product d) (combs C)\<rparr>"
    using assms(1,2,5) by (rule ctor_result)
  have wf: "wf_Combinations n k C" and len: "length (combs C) = binomial_nk n k"
    using assms(1) by (simp_all add: legal_wf legal_length)
  have b: "cindex C c < binomial_nk n k" and at: "combs C ! cindex C c = c"
    using cindex_member [OF wf assms(8)] by simp_all
  have c: "wf_Combination n k c"
    using wf assms(8) by (rule wf_Combinations_mem)
  have B: "0 < spec_block_size (map unat d) c"
    using prod_list_pos [OF spec_radices_pos [OF c assms(2,3)]] by (simp only: prod_spec_radices)
  note loc0 = block_index_located [OF assms(1,2,4,5,6,8) B]
  obtain e0 where "Lexicographic_at n k C L (of_nat (?P + 0)) = Ok e0"
    using assms(7) loc0(1) by (auto simp add: roundtrip_at_iff)
  then have "\<forall>r\<in>set (along_radices (dimensions L) (combs C ! cindex C c)). r \<noteq> 0"
    and "\<forall>r\<in>set (across_radices (dimensions L) (combs C ! cindex C c)). r \<noteq> 0"
    using at_Ok_radices [OF wf _ loc0(2) b] len by (simp_all add: L)
  then have nz1: "\<forall>r\<in>set (along_radices d c). r \<noteq> 0"
    and nz2: "\<forall>r\<in>set (across_radices d c). r \<noteq> 0"
    by (simp_all add: L at)
  then have pos: "\<forall>t\<in>set ?ts. 0 < t"
    by auto
  have "prod_list ?ts < prod_list ?rs"
    using radices_le_spec [OF c assms(2)] pos nf
    by (intro prod_list_strict) (simp_all add: radices_fit_Tint_def)
  then have x: "prod_list ?ts < spec_block_size (map unat d) c"
    by (simp only: prod_spec_radices)
  note loc1 = block_index_located [OF assms(1,2,4,5,6,8) x]
  let ?i = "of_nat (?P + prod_list ?ts) :: Bint"
  let ?idx = "of_nat (prod_list ?ts) :: Bint"
  have nz1': "\<forall>r\<in>set (along_radices d (combs C ! cindex C c)). r \<noteq> 0"
    and nz2': "\<forall>r\<in>set (across_radices d (combs C ! cindex C c)). r \<noteq> 0"
    using nz1 nz2 by (simp_all only: at)
  have z: "unat ?idx mod prod_list ?ts = 0"
    by (simp only: loc1(3) mod_self)
  obtain e where e: "Lexicographic_at n k C L ?i = Ok e"
    and ie0: "Lexicographic_index n k C L e =
              Ok (?i - ?idx + of_nat (unat ?idx mod prod_list ?ts))"
    using index_at_located [OF assms(1,2,5) loc1(2) b nz1' nz2', unfolded at] by blast
  have ie: "Lexicographic_index n k C L e = Ok (?i - ?idx)"
    unfolding ie0 z by simp
  have "roundtrip_at n k C L ?i"
    using assms(7) loc1(1) by simp
  then have "Lexicographic_index n k C L e = Ok ?i"
    using e by (simp add: roundtrip_at_iff)
  then have "?idx = 0"
    using ie by simp
  then have "unat ?idx = 0"
    by simp
  then show False
    using loc1(3) prod_list_pos [OF pos] by simp
qed

lemma decoded_digits:
  assumes "legal_parameters n k C" and "length d = n"
    and "Lexicographic_ctor n k C d = Some (Ok L)" and "Lexicographic_size L = Ok sz"
    and "i < sz" and "Lexicographic_at n k C L i = Ok e"
  shows "\<exists>x. position_along e = map of_nat (digits (along_radices d (directions e)) x) \<and>
             position_across e =
               map of_nat (digits (across_radices d (directions e))
                 (x div prod_list (along_radices d (directions e))))"
proof -
  obtain b idx where loc: "locate (block_sizes L) 0 i = (b, idx)"
    by (cases "locate (block_sizes L) 0 i")
  have L: "L = \<lparr>dimensions = d, block_sizes = map (block_product d) (combs C)\<rparr>"
    using assms(1,2,3) by (rule ctor_result)
  have wf: "wf_Combinations n k C" and len: "length (combs C) = binomial_nk n k"
    using assms(1) by (simp_all add: legal_wf legal_length)
  have b: "b < binomial_nk n k"
    using located_block(1) [OF assms(1,2,3,4,5) loc] .
  have bl: "length (block_sizes L) = binomial_nk n k" and dl: "length (dimensions L) = n"
    using len assms(2) by (simp_all add: L)
  note nz = at_Ok_radices [OF wf bl loc b assms(6)]
  have "Lexicographic_at n k C L i =
         Ok \<lparr>directions = combs C ! b,
             position_along =
               map of_nat (digits (along_radices (dimensions L) (combs C ! b)) (unat idx)),
             position_across =
               map of_nat (digits (across_radices (dimensions L) (combs C ! b))
                 (unat idx div prod_list (along_radices (dimensions L) (combs C ! b))))\<rparr>"
    using wf dl bl loc b nz by (rule Lexicographic_at_value)
  then have "e = \<lparr>directions = combs C ! b,
             position_along = map of_nat (digits (along_radices d (combs C ! b)) (unat idx)),
             position_across =
               map of_nat (digits (across_radices d (combs C ! b))
                 (unat idx div prod_list (along_radices d (combs C ! b))))\<rparr>"
    using assms(6) by (simp add: L)
  then show ?thesis by auto
qed

lemma Lexicographic_ctor_255_example:
  "Lexicographic_ctor 1 1 Combinations_1_1 [255] =
   Some (Ok \<lparr>dimensions = [255], block_sizes = [255]\<rparr>)"
  using Lexicographic_ctor_value [OF legal_parameters_1_1, of "[255]"]
  by (simp add: block_product_def Combinations_1_1_def)

text \<open>
  Claim C10, as amended. In \<^verbatim>\<open>operator[]\<close> and in \<^verbatim>\<open>index\<close> every radix passes
  through \<^verbatim>\<open>Tint fdim\<close>, so the radices in use are \<open>d[in(j)] mod 256\<close> and
  \<open>(1 + d[out(j)]) mod 256\<close>. Let the shape \<open>d\<close> have entries \<open>d[i] \<ge> 1\<close> and a
  number of cells that fits \<^verbatim>\<open>Bint\<close>, and let the constructor have returned \<open>L\<close>.
  Then: the positions of every element that \<^verbatim>\<open>operator[]\<close> returns are digits for the
  reduced radices; \<^verbatim>\<open>index(operator[](i)) = i\<close> holds for every \<open>i < size()\<close> if and
  only if, for every combination, each radix in use is the unreduced one; in that case
  \<^verbatim>\<open>operator[](index(e)) = e\<close> holds for every well-formed element as well; and it is
  the case when every \<open>d[i] + 1\<close> fits \<^verbatim>\<open>Tint\<close>.
\<close>

theorem Tint_radix_bijection:
  assumes "legal_parameters n k C" and "length d = n" and "\<forall>x\<in>set d. x \<noteq> 0"
    and "spec_size (map unat d) C < 2 ^ 32"
    and "Lexicographic_ctor n k C d = Some (Ok L)" and "Lexicographic_size L = Ok sz"
  shows "(\<forall>i < sz. \<forall>e. Lexicographic_at n k C L i = Ok e \<longrightarrow>
            (\<exists>x. position_along e = map of_nat (digits (along_radices d (directions e)) x) \<and>
                 position_across e =
                   map of_nat (digits (across_radices d (directions e))
                     (x div prod_list (along_radices d (directions e)))))) \<and>
         ((\<forall>i < sz. roundtrip_at n k C L i) \<longleftrightarrow> (\<forall>c\<in>set (combs C). radices_fit_Tint d c)) \<and>
         ((\<forall>c\<in>set (combs C). radices_fit_Tint d c) \<longrightarrow>
            (\<forall>e. well_formed_Element n k C d e \<longrightarrow>
                 (\<exists>i. Lexicographic_index n k C L e = Ok i \<and> Lexicographic_at n k C L i = Ok e))) \<and>
         (fits_Tint d \<longrightarrow> (\<forall>c\<in>set (combs C). radices_fit_Tint d c))"
proof (intro conjI allI impI)
  fix i e
  assume "i < sz" and "Lexicographic_at n k C L i = Ok e"
  then show "\<exists>x. position_along e = map of_nat (digits (along_radices d (directions e)) x) \<and>
                 position_across e =
                   map of_nat (digits (across_radices d (directions e))
                     (x div prod_list (along_radices d (directions e))))"
    using decoded_digits [OF assms(1,2,5,6)] by blast
next
  show "(\<forall>i < sz. roundtrip_at n k C L i) \<longleftrightarrow> (\<forall>c\<in>set (combs C). radices_fit_Tint d c)"
  proof
    assume "\<forall>i < sz. roundtrip_at n k C L i"
    then show "\<forall>c\<in>set (combs C). radices_fit_Tint d c"
      using roundtrip_needs_radices [OF assms] by blast
  next
    assume "\<forall>c\<in>set (combs C). radices_fit_Tint d c"
    then show "\<forall>i < sz. roundtrip_at n k C L i"
      using encode_decode [OF assms(1,2,5,6)] by (simp add: roundtrip_at_iff)
  qed
next
  fix e
  assume "\<forall>c\<in>set (combs C). radices_fit_Tint d c" and w: "well_formed_Element n k C d e"
  moreover from w have "directions e \<in> set (combs C)"
    by (simp add: well_formed_Element_def)
  ultimately have "radices_fit_Tint d (directions e)" by blast
  then show "\<exists>i. Lexicographic_index n k C L e = Ok i \<and> Lexicographic_at n k C L i = Ok e"
    using decode_encode [OF assms(1,2,4,5) w] by blast
next
  assume "fits_Tint d"
  then show "\<forall>c\<in>set (combs C). radices_fit_Tint d c"
    using fits_Tint_radices [OF wf_Combinations_mem [OF legal_wf [OF assms(1)]] assms(2)]
    by blast
qed

theorem Tint_radix_bijection_witness:
  "roundtrip_at 2 1 Combinations_2_1 \<lparr>dimensions = [2, 3], block_sizes = [8, 9]\<rparr> 16 \<and>
   radices_fit_Tint [2, 3] \<lparr>c_in = [1], c_out = [0]\<rparr> \<and>
   \<not> (\<forall>i < 300. roundtrip_at 1 1 Combinations_1_1 \<lparr>dimensions = [300], block_sizes = [300]\<rparr> i)"
proof -
  have h2: "length [2, 3 :: Sint] = 2" by simp
  have h3: "\<forall>x\<in>set [2, 3 :: Sint]. x \<noteq> 0" by simp
  have h4: "spec_size (map unat [2, 3 :: Sint]) Combinations_2_1 < 2 ^ 32"
    by (simp add: spec_size_def spec_block_size_def Combinations_2_1_def)
  have h6: "Lexicographic_size \<lparr>dimensions = [2, 3], block_sizes = [8, 9]\<rparr> = Ok 17"
    by (simp add: Lexicographic_size_value)
  have f: "fits_Tint [2, 3]"
    by (simp add: fits_Tint_def)
  have m: "\<lparr>c_in = [1], c_out = [0]\<rparr> \<in> set (combs Combinations_2_1)"
    by (simp add: Combinations_2_1_def)
  have lt: "(16 :: Bint) < 17" by simp
  note T = Tint_radix_bijection [OF legal_parameters_2_1 h2 h3 h4 Lexicographic_ctor_2_1_example h6]
  from T f have all: "\<forall>c\<in>set (combs Combinations_2_1). radices_fit_Tint [2, 3] c"
    by blast
  with T have "\<forall>i < 17. roundtrip_at 2 1 Combinations_2_1 \<lparr>dimensions = [2, 3], block_sizes = [8, 9]\<rparr> i"
    by blast
  with all m lt have first: "roundtrip_at 2 1 Combinations_2_1 \<lparr>dimensions = [2, 3], block_sizes = [8, 9]\<rparr> 16 \<and>
      radices_fit_Tint [2, 3] \<lparr>c_in = [1], c_out = [0]\<rparr>"
    by blast
  have g2: "length [300 :: Sint] = 1" by simp
  have g3: "\<forall>x\<in>set [300 :: Sint]. x \<noteq> 0" by simp
  have g4: "spec_size (map unat [300 :: Sint]) Combinations_1_1 < 2 ^ 32"
    by (simp add: spec_size_def spec_block_size_def Combinations_1_1_def)
  have g5: "Lexicographic_ctor 1 1 Combinations_1_1 [300] =
      Some (Ok \<lparr>dimensions = [300], block_sizes = [300]\<rparr>)"
    using Lexicographic_ctor_value [OF legal_parameters_1_1, of "[300]"]
    by (simp add: block_product_def Combinations_1_1_def)
  have g6: "Lexicographic_size \<lparr>dimensions = [300], block_sizes = [300]\<rparr> = Ok 300"
    by (simp add: Lexicographic_size_value)
  have nf: "\<not> (\<forall>c\<in>set (combs Combinations_1_1). radices_fit_Tint [300] c)"
    by (simp add: radices_fit_Tint_def along_radices_def across_radices_def spec_radices_def
        Combinations_1_1_def)
  note U = Tint_radix_bijection [OF legal_parameters_1_1 g2 g3 g4 g5 g6]
  from U nf have "\<not> (\<forall>i < 300. roundtrip_at 1 1 Combinations_1_1 \<lparr>dimensions = [300], block_sizes = [300]\<rparr> i)"
    by blast
  with first show ?thesis by blast
qed

text \<open>
  That every \<open>d[i] + 1\<close> fits \<^verbatim>\<open>Tint\<close> is not necessary: for \<open>n = k = 1\<close> and
  \<open>d = (255)\<close> the only radix in use is 255, and the round trip holds for each of the
  255 indices, while \<open>255 + 1\<close> is not a value of \<^verbatim>\<open>Tint\<close>.
\<close>

theorem bijection_without_Tint_bound_example:
  "\<not> fits_Tint [255] \<and>
   Lexicographic_ctor 1 1 Combinations_1_1 [255] =
     Some (Ok \<lparr>dimensions = [255], block_sizes = [255]\<rparr>) \<and>
   Lexicographic_size \<lparr>dimensions = [255], block_sizes = [255]\<rparr> = Ok 255 \<and>
   list_all (roundtrip_at 1 1 Combinations_1_1 \<lparr>dimensions = [255], block_sizes = [255]\<rparr>)
     (map of_nat [0..<255])"
proof -
  let ?L = "\<lparr>dimensions = [255], block_sizes = [255]\<rparr>"
  have h2: "length [255 :: Sint] = 1" by simp
  have sz: "Lexicographic_size ?L = Ok 255"
    by (simp add: Lexicographic_size_value)
  have fit: "\<forall>c\<in>set (combs Combinations_1_1). radices_fit_Tint [255] c"
    by (simp add: radices_fit_Tint_def along_radices_def across_radices_def spec_radices_def
        Combinations_1_1_def)
  have "roundtrip_at 1 1 Combinations_1_1 ?L (of_nat j)" if "j < 255" for j
  proof -
    have "unat (of_nat j :: Bint) = j"
      using that by (simp add: unat_of_nat)
    then have "(of_nat j :: Bint) < 255"
      using that by (simp add: word_less_nat_alt)
    then show ?thesis
      using encode_decode [OF legal_parameters_1_1 h2 Lexicographic_ctor_255_example sz _ fit]
      by (simp add: roundtrip_at_iff)
  qed
  then have "list_all (roundtrip_at 1 1 Combinations_1_1 ?L) (map of_nat [0..<255])"
    by (simp add: list_all_iff)
  moreover have "\<not> fits_Tint [255]"
    by (simp add: fits_Tint_def)
  ultimately show ?thesis
    using sz Lexicographic_ctor_255_example by simp
qed

end
